theory Spec2Isabelle
  imports Complex_Main "HOL-Library.Sublist" "HOL-Library.Multiset"
begin

section \<open>Rate-limit gates (ncbi.py, sra.py)\<close>

text \<open>
  Python's \<^verbatim>\<open>float\<close> is the IEEE 754 binary64 format. A finite float is given by the real
  number it stands for; the result of an operation is the exact result rounded to the
  nearest float, to the one with the even significand when two are equally near, and to
  an infinity when the rounded magnitude reaches \<open>2 ^ 1024\<close>. The floats of the binade of
  exponent \<open>e\<close> are the multiples of the quantum \<open>2 powi (e - 52)\<close>; the exponent of a real
  is the largest \<open>e\<close> up to 1023 with \<open>2 powi e \<le> \<bar>x\<bar>\<close>, and \<open>- 1022\<close> below the normal
  range, where the quantum stays \<open>2 powi (- 1074)\<close>. The difference of two finite floats is
  never a NaN; the sign of a zero is not kept, no comparison sees it.
\<close>

datatype double = Finite real | PlusInf | MinusInf

text \<open>Rounding a real to the nearest integer, a tie to the even one.\<close>

definition round_half_even :: "real \<Rightarrow> int" where
  "round_half_even y =
     (let f = \<lfloor>y\<rfloor>; d = y - of_int f
      in if d < 1 / 2 then f else if 1 / 2 < d then f + 1 else if even f then f else f + 1)"

definition double_exponent :: "real \<Rightarrow> int" where
  "double_exponent x = last (- 1022 # filter (\<lambda>e. 2 powi e \<le> \<bar>x\<bar>) [- 1021..1023])"

definition double_round :: "real \<Rightarrow> double" where
  "double_round x =
     (let q = 2 powi (double_exponent x - 52);
          v = of_int (round_half_even (x / q)) * q
      in if 2 powi 1024 \<le> \<bar>v\<bar> then (if 0 < x then PlusInf else MinusInf) else Finite v)"

text \<open>
  \<^verbatim>\<open>a - b\<close> on finite floats (an \<^verbatim>\<open>int\<close> operand such as the initial 0 is converted
  first, without error), \<^verbatim>\<open>x > m\<close> for a float \<open>x\<close> and a finite number \<open>m\<close>, and the
  reals that are floats.
\<close>

definition float_sub :: "real \<Rightarrow> real \<Rightarrow> double" where
  "float_sub a b = double_round (a - b)"

fun float_gt :: "double \<Rightarrow> real \<Rightarrow> bool" where
  "float_gt (Finite v) m = (m < v)"
| "float_gt PlusInf m = True"
| "float_gt MinusInf m = False"


text \<open>
  Both downloaders own a \<^verbatim>\<open>threading.Lock\<close> and the time of the last query they let
  through. A lock is modelled by the flag "held"; \<^verbatim>\<open>acquire(blocking=False)\<close> returns at
  once, with \<^verbatim>\<open>True\<close> (and the lock taken) exactly when the lock was free.
  The readings of \<^verbatim>\<open>time.time()\<close> are arguments of the gate, given by the real numbers
  these floats stand for: \<open>t_check\<close> is the reading from which the stored time is
  subtracted, \<open>t_store\<close> the later reading that is stored. The other attributes of the two
  objects are in the records \<open>ncbi\<close> and \<open>sra\<close> further down.
\<close>

definition acquire_nonblocking :: "bool \<Rightarrow> bool \<times> bool" where
  "acquire_nonblocking held = (if held then (False, held) else (True, True))"

definition release :: "bool \<Rightarrow> bool" where
  "release held = False"

record ncbi_gate =
  ncbi_mutex :: bool
  last_ncbi_query :: real

definition ncbi_delay_ready :: "ncbi_gate \<Rightarrow> real \<Rightarrow> real \<Rightarrow> bool \<times> ncbi_gate" where
  "ncbi_delay_ready self t_check t_store =
     (let min_delay = 1;
          (locked, m) = acquire_nonblocking (ncbi_mutex self);
          self = self\<lparr>ncbi_mutex := m\<rparr>;
          ready = False
      in if locked then
           (let ready = float_gt (float_sub t_check (last_ncbi_query self)) min_delay;
                self = (if ready then self\<lparr>last_ncbi_query := t_store\<rparr> else self);
                self = self\<lparr>ncbi_mutex := release (ncbi_mutex self)\<rparr>
            in (ready, self))
         else (ready, self))"

record sra_gate =
  sra_mutex :: bool
  min_delay :: real
  last_sra_query :: real

text \<open>The part of \<^verbatim>\<open>SRA.__init__\<close> that sets up the gate.\<close>

definition sra_gate_init :: sra_gate where
  "sra_gate_init = \<lparr>sra_mutex = False, min_delay = 1 / 2, last_sra_query = 0\<rparr>"


definition sra_delay_ready :: "sra_gate \<Rightarrow> real \<Rightarrow> real \<Rightarrow> bool \<times> sra_gate" where
  "sra_delay_ready self t_check t_store =
     (let (locked, m) = acquire_nonblocking (sra_mutex self);
          self = self\<lparr>sra_mutex := m\<rparr>;
          ready = False
      in if locked then
           (let ready = float_gt (float_sub t_check (last_sra_query self)) (min_delay self);
                self = (if ready then self\<lparr>last_sra_query := t_store\<rparr> else self);
                self = self\<lparr>sra_mutex := release (sra_mutex self)\<rparr>
            in (ready, self))
         else (ready, self))"

section \<open>Python values shared by the models\<close>

text \<open>
  The exceptions the modelled code can raise. A function that can raise returns
  \<open>py_error + 'a\<close>, with \<open>Inl\<close> for the exception.
\<close>

datatype py_error =
    KeyError | TypeError | FileExistsError | FileNotFoundError | NotADirectoryError
  | PermissionError | OtherOSError

text \<open>
  A \<^verbatim>\<open>dict\<close> is an association list in insertion order; its keys are distinct.
  \<^verbatim>\<open>d[k]\<close> raises \<^verbatim>\<open>KeyError\<close> on a missing key.
\<close>

definition dict_get :: "('k \<times> 'v) list \<Rightarrow> 'k \<Rightarrow> py_error + 'v" where
  "dict_get d k = (case map_of d k of None \<Rightarrow> Inl KeyError | Some v \<Rightarrow> Inr v)"

section \<open>DownloadManager.download_to: submission and engine lifecycle (utils/download.py)\<close>

text \<open>
  The \<^verbatim>\<open>JobManager\<close> is seen through the calls \<^verbatim>\<open>download_to\<close> makes on it, in order:
  the manager is the list of these calls, and \<^verbatim>\<open>remaining_jobs()\<close> is recorded with the
  number it returned.
\<close>

datatype 'j event = Start | AddJob 'j | RemainingJobs nat | Stop | Join

text \<open>
  The state of the submission loop: \<^verbatim>\<open>idxs\<close>, \<^verbatim>\<open>total_jobs\<close> and the manager.
  \<open>submit_round\<close> is the \<^verbatim>\<open>for source in jobs\<close> loop, \<open>submit_while\<close> the
  \<^verbatim>\<open>while total_jobs > 0\<close> loop around it: it returns \<open>None\<close> when the loop runs forever.
\<close>

type_synonym ('s, 'j) submit_state = "('s \<rightharpoonup> nat) \<times> int \<times> 'j event list"

fun submit_round ::
  "('s \<times> 'j list) list \<Rightarrow> 's list \<Rightarrow> ('s, 'j) submit_state \<Rightarrow> py_error + ('s, 'j) submit_state" where
  "submit_round jobs [] st = Inr st"
| "submit_round jobs (source # rest) (idxs, total_jobs, manager) =
     (case idxs source of
        None \<Rightarrow> Inl KeyError
      | Some i \<Rightarrow>
          (case dict_get jobs source of
             Inl e \<Rightarrow> Inl e
           | Inr js \<Rightarrow>
               if i < length js
               then submit_round jobs rest
                      (idxs(source \<mapsto> i + 1), total_jobs - 1, manager @ [AddJob (js ! i)])
               else submit_round jobs rest (idxs, total_jobs, manager)))"

partial_function (option) submit_while ::
  "('s \<times> 'j list) list \<Rightarrow> ('s, 'j) submit_state \<Rightarrow> (py_error + ('s, 'j) submit_state) option" where
  "submit_while jobs st =
     (if fst (snd st) > 0
      then (case submit_round jobs (map fst jobs) st of
              Inl e \<Rightarrow> Some (Inl e)
            | Inr st' \<Rightarrow> submit_while jobs st')
      else Some (Inr st))"

declare submit_while.simps [code]

fun total_len :: "('s \<times> 'j list) list \<Rightarrow> 's list \<Rightarrow> py_error + int" where
  "total_len jobs [] = Inr 0"
| "total_len jobs (source # rest) =
     (case dict_get jobs source of
        Inl e \<Rightarrow> Inl e
      | Inr js \<Rightarrow> (case total_len jobs rest of Inl e \<Rightarrow> Inl e | Inr n \<Rightarrow> Inr (int (length js) + n)))"

definition submit_jobs ::
  "('s \<times> 'j list) list \<Rightarrow> 'j event list \<Rightarrow> (py_error + 'j event list) option" where
  "submit_jobs jobs manager =
     (let idxs = map_of (map (\<lambda>source. (source, 0)) (map fst jobs))
      in case total_len jobs (map fst jobs) of
           Inl e \<Rightarrow> Some (Inl e)
         | Inr total_jobs \<Rightarrow>
             (case submit_while jobs (idxs, total_jobs, manager) of
                None \<Rightarrow> None
              | Some (Inl e) \<Rightarrow> Some (Inl e)
              | Some (Inr (idxs', total_jobs', manager')) \<Rightarrow> Some (Inr manager')))"

text \<open>
  The wait loop \<^verbatim>\<open>while manager.remaining_jobs() > 0: time.sleep(1)\<close>. The jobs run on
  the manager's own threads, so what \<^verbatim>\<open>remaining_jobs()\<close> returns at its successive calls
  is given from outside, as the list \<open>answers\<close>. When the list is used up before an answer
  0, the loop is still waiting: the result is \<open>False\<close> with the calls made so far.
  \<^verbatim>\<open>time.sleep\<close> is not a call on the manager and leaves no trace.
\<close>

fun wait_remaining :: "nat list \<Rightarrow> 'j event list \<Rightarrow> bool \<times> 'j event list" where
  "wait_remaining [] manager = (False, manager)"
| "wait_remaining (n # answers) manager =
     (if n > 0 then wait_remaining answers (manager @ [RemainingJobs n])
      else (True, manager @ [RemainingJobs n]))"

definition run_engine ::
  "('s \<times> 'j list) list \<Rightarrow> nat list \<Rightarrow> (py_error + bool \<times> 'j event list) option" where
  "run_engine jobs answers =
     (let manager = [];
          manager = manager @ [Start]
      in case submit_jobs jobs manager of
           None \<Rightarrow> None
         | Some (Inl e) \<Rightarrow> Some (Inl e)
         | Some (Inr manager) \<Rightarrow>
             (case wait_remaining answers manager of
                (False, manager) \<Rightarrow> Some (Inr (False, manager))
              | (True, manager) \<Rightarrow> Some (Inr (True, manager @ [Stop, Join]))))"

text \<open>
  The order of the lifecycle operations, as an acceptor of call sequences: \<^verbatim>\<open>start()\<close>
  first, then \<^verbatim>\<open>add_job()\<close> calls, then \<^verbatim>\<open>remaining_jobs()\<close> calls;
  \<^verbatim>\<open>stop()\<close> only right after a \<^verbatim>\<open>remaining_jobs()\<close> that returned 0, and
  \<^verbatim>\<open>join()\<close> only right after \<^verbatim>\<open>stop()\<close>. Every prefix of an accepted sequence is
  accepted.
\<close>

datatype phase = NotStarted | Adding | Polling | Drained | Stopped | Joined

fun lifecycle_ok :: "phase \<Rightarrow> 'j event list \<Rightarrow> bool" where
  "lifecycle_ok ph [] = True"
| "lifecycle_ok NotStarted (Start # tr) = lifecycle_ok Adding tr"
| "lifecycle_ok Adding (AddJob j # tr) = lifecycle_ok Adding tr"
| "lifecycle_ok Adding (RemainingJobs n # tr) =
     lifecycle_ok (if n = 0 then Drained else Polling) tr"
| "lifecycle_ok Polling (RemainingJobs n # tr) =
     lifecycle_ok (if n = 0 then Drained else Polling) tr"
| "lifecycle_ok Drained (Stop # tr) = lifecycle_ok Stopped tr"
| "lifecycle_ok Stopped (Join # tr) = lifecycle_ok Joined tr"
| "lifecycle_ok ph (e # tr) = False"

text \<open>
  Round-robin order, as the words say it: round \<open>k\<close> takes the job of index \<open>k\<close> from
  each source that has one, in the order of the sources; the rounds follow each other
  until the longest list is used up.
\<close>

definition round_of :: "('s \<times> 'j list) list \<Rightarrow> nat \<Rightarrow> 'j list" where
  "round_of jobs k = map (\<lambda>(s, js). js ! k) (filter (\<lambda>(s, js). k < length js) jobs)"

definition rounds :: "('s \<times> 'j list) list \<Rightarrow> nat" where
  "rounds jobs = foldr (\<lambda>(s, js). max (length js)) jobs 0"

definition round_robin :: "('s \<times> 'j list) list \<Rightarrow> 'j list" where
  "round_robin jobs = concat (map (round_of jobs) [0..<rounds jobs])"

text \<open>
  The state of the submission loop after \<open>k\<close> full rounds: every index is \<open>k\<close>, capped by the
  length of the source's list, and \<^verbatim>\<open>total_jobs\<close> counts the jobs not yet submitted.
\<close>

definition idxs_at :: "('s \<times> 'j list) list \<Rightarrow> nat \<Rightarrow> ('s \<rightharpoonup> nat)" where
  "idxs_at jobs k = (\<lambda>s. map_option (\<lambda>js. min k (length js)) (map_of jobs s))"

definition total_at :: "('s \<times> 'j list) list \<Rightarrow> nat \<Rightarrow> int" where
  "total_at jobs k = (\<Sum>(s, js)\<leftarrow>jobs. int (length js - k))"

section \<open>check_binary (utils/download.py)\<close>

text \<open>
  \<^verbatim>\<open>subprocess.run\<close> is the operating system's answer to an argument vector: the process
  completes with a return code, or spawning it raises. \<^verbatim>\<open>str.split(' ')\<close> cuts at every
  single space and keeps empty pieces.
\<close>

datatype proc_result = Completed int | Raised py_error

fun split_sep :: "char \<Rightarrow> string \<Rightarrow> string list" where
  "split_sep sep [] = [[]]"
| "split_sep sep (c # cs) =
     (if c = sep then [] # split_sep sep cs
      else (case split_sep sep cs of w # ws \<Rightarrow> (c # w) # ws | [] \<Rightarrow> [[c]]))"

definition check_binary :: "(string list \<Rightarrow> proc_result) \<Rightarrow> string \<Rightarrow> py_error + bool" where
  "check_binary run path_to_bin =
     (let cmd = path_to_bin @ '' --version'' in
      case run (split_sep CHR '' '' cmd) of
        Completed returncode \<Rightarrow> Inr (returncode = 0)
      | Raised e \<Rightarrow> if e = FileNotFoundError then Inr False else Inl e)"

section \<open>The file system, and the directories of download_to (utils/download.py)\<close>

text \<open>
  A location of the file system is the list of the names from the root to it; \<open>[]\<close> is
  the root, which is a directory. A file system maps the locations that exist to the kind
  of node they hold. What location a path string names (current directory, separators,
  links) is the operating system's business: the modelled functions take it as the
  function \<open>resolve\<close>. Contents of files play no role.
\<close>

type_synonym path = "string list"

datatype node = File | Dir

type_synonym filesystem = "path \<Rightarrow> node option"

definition node_at :: "filesystem \<Rightarrow> path \<Rightarrow> node option" where
  "node_at fs p = (if p = [] then Some Dir else fs p)"

definition path_exists :: "filesystem \<Rightarrow> path \<Rightarrow> bool" where
  "path_exists fs p = (node_at fs p \<noteq> None)"

definition path_isdir :: "filesystem \<Rightarrow> path \<Rightarrow> bool" where
  "path_isdir fs p = (node_at fs p = Some Dir)"

text \<open>
  \<^verbatim>\<open>os.mkdir\<close>, \<^verbatim>\<open>os.makedirs\<close> (as the standard library writes it: the parent first when
  it is missing, then the directory, an error of the latter being dropped when \<^verbatim>\<open>exist_ok\<close>
  is set and the directory is there) and \<^verbatim>\<open>shutil.rmtree\<close>.
\<close>

definition mkdir :: "filesystem \<Rightarrow> path \<Rightarrow> py_error + filesystem" where
  "mkdir fs p =
     (if path_exists fs p then Inl FileExistsError
      else (case node_at fs (butlast p) of
              None \<Rightarrow> Inl FileNotFoundError
            | Some File \<Rightarrow> Inl NotADirectoryError
            | Some Dir \<Rightarrow> Inr (fs(p \<mapsto> Dir))))"

function makedirs :: "filesystem \<Rightarrow> path \<Rightarrow> bool \<Rightarrow> py_error + filesystem" where
  "makedirs fs name exist_ok =
     (case (if name \<noteq> [] \<and> \<not> path_exists fs (butlast name)
            then (case makedirs fs (butlast name) exist_ok of
                    Inl e \<Rightarrow> if e = FileExistsError then Inr fs else Inl e
                  | Inr fs' \<Rightarrow> Inr fs')
            else Inr fs) of
        Inl e \<Rightarrow> Inl e
      | Inr fs1 \<Rightarrow>
          (case mkdir fs1 name of
             Inr fs2 \<Rightarrow> Inr fs2
           | Inl e \<Rightarrow> if \<not> exist_ok \<or> \<not> path_isdir fs1 name then Inl e else Inr fs1))"
  by pat_completeness auto
termination
  by (relation "measure (\<lambda>(fs, name, exist_ok). length name)") auto

declare makedirs.simps [simp del]

definition rmtree :: "filesystem \<Rightarrow> path \<Rightarrow> py_error + filesystem" where
  "rmtree fs p =
     (if p = [] then Inl OtherOSError
      else (case node_at fs p of
              None \<Rightarrow> Inl FileNotFoundError
            | Some File \<Rightarrow> Inl NotADirectoryError
            | Some Dir \<Rightarrow> Inr (\<lambda>q. if prefix p q then None else fs q)))"

text \<open>
  Lines 36 to 40 of \<^verbatim>\<open>download_to\<close>: the data directory, then the log directory.
  \<^verbatim>\<open>logdir\<close> may be \<^verbatim>\<open>None\<close>; \<^verbatim>\<open>makedirs(None)\<close> raises \<^verbatim>\<open>TypeError\<close>.
\<close>

definition prepare_dirs ::
  "(string \<Rightarrow> path) \<Rightarrow> filesystem \<Rightarrow> string \<Rightarrow> string option \<Rightarrow> py_error + filesystem" where
  "prepare_dirs resolve fs datadir logdir =
     (case makedirs fs (resolve datadir) True of
        Inl e \<Rightarrow> Inl e
      | Inr fs \<Rightarrow>
          (case (case logdir of
                   None \<Rightarrow> Inr fs
                 | Some l \<Rightarrow> if path_exists fs (resolve l) then rmtree fs (resolve l) else Inr fs) of
             Inl e \<Rightarrow> Inl e
           | Inr fs \<Rightarrow>
               (case logdir of
                  None \<Rightarrow> Inl TypeError
                | Some l \<Rightarrow> makedirs fs (resolve l) False)))"

text \<open>
  One resolution of path strings, for the examples: the names between the slashes.
\<close>

definition components :: "string \<Rightarrow> path" where
  "components s = filter (\<lambda>c. c \<noteq> []) (split_sep CHR ''/'' s)"

definition example_fs :: filesystem where
  "example_fs =
     [[''out''] \<mapsto> Dir, [''out'', ''SRR1''] \<mapsto> Dir, [''out'', ''SRR1'', ''reads.gz''] \<mapsto> File,
      [''out'', ''logs''] \<mapsto> Dir, [''out'', ''logs'', ''old.log''] \<mapsto> File]"

section \<open>Jobs, and NCBI.jobs_from_accessions (downloaders/ncbi.py)\<close>

text \<open>
  Strings: \<^verbatim>\<open>str(n)\<close> of a natural number, \<^verbatim>\<open>posixpath.join\<close> of two strings,
  \<^verbatim>\<open>sep.join(xs)\<close>, \<^verbatim>\<open>range(start, stop, step)\<close> for a positive step, and how an
  f-string prints a value that may be \<^verbatim>\<open>None\<close>.
\<close>

definition digit_char :: "nat \<Rightarrow> char" where
  "digit_char d = ''0123456789'' ! d"

fun str_nat :: "nat \<Rightarrow> string" where
  "str_nat n = (if n < 10 then [digit_char n] else str_nat (n div 10) @ [digit_char (n mod 10)])"

declare str_nat.simps [simp del]

definition path_join :: "string \<Rightarrow> string \<Rightarrow> string" where
  "path_join a b =
     (if b \<noteq> [] \<and> hd b = CHR ''/'' then b
      else if a = [] \<or> last a = CHR ''/'' then a @ b
      else a @ ''/'' @ b)"

fun join_sep :: "string \<Rightarrow> string list \<Rightarrow> string" where
  "join_sep sep [] = []"
| "join_sep sep [x] = x"
| "join_sep sep (x # y # ys) = x @ sep @ join_sep sep (y # ys)"

definition py_range :: "nat \<Rightarrow> nat \<Rightarrow> nat \<Rightarrow> nat list" where
  "py_range start stop step = map (\<lambda>k. start + k * step) [0..<(stop - start + step - 1) div step]"

definition fmt_opt :: "string option \<Rightarrow> string" where
  "fmt_opt v = (case v of None \<Rightarrow> ''None'' | Some s \<Rightarrow> s)"

text \<open>
  Modelled from the spec: the classes \<^verbatim>\<open>CmdLineJob\<close> and \<^verbatim>\<open>FunctionJob\<close> of
  \<^verbatim>\<open>seqdd.utils.scheduler\<close>, which is not among the sources. A job is what sections 3
  and 6 of the spec give a task at its construction: its kind with the command line or the
  callable and its arguments, its own list of parents (the parents passed, none when the
  caller passes none), its gate (\<open>None\<close> when the caller passes no \<^verbatim>\<open>can_start\<close>) and
  its name (\<open>None\<close> when the caller passes none).

  Jobs are objects: they live in a heap, a list of job values, and are referred to by their
  position in it. Creating a job appends it to the heap. A Python variable that holds a job
  or \<^verbatim>\<open>None\<close> is a \<open>ref option\<close>. The bound methods passed as gates and as callables
  are named by constants.
\<close>

type_synonym ref = nat

datatype gate_fn = Ncbi_delay_ready | Sra_delay_ready

datatype callable = Ncbi_clean | Sra_move_and_clean | Sra_run_fasterqdump_from_SRXP

datatype payload = CmdLine string | Function callable "string list"

record job =
  job_payload :: payload
  job_parents :: "ref option list"
  job_can_start :: "gate_fn option"
  job_label :: "string option"

definition CmdLineJob ::
  "job list \<Rightarrow> string \<Rightarrow> ref option list \<Rightarrow> gate_fn option \<Rightarrow> string option \<Rightarrow> ref \<times> job list" where
  "CmdLineJob h command_line parents can_start name =
     (length h, h @ [\<lparr>job_payload = CmdLine command_line, job_parents = parents,
                      job_can_start = can_start, job_label = name\<rparr>])"

definition FunctionJob ::
  "job list \<Rightarrow> callable \<Rightarrow> string list \<Rightarrow> ref option list \<Rightarrow> gate_fn option \<Rightarrow> string option
     \<Rightarrow> ref \<times> job list" where
  "FunctionJob h func func_args parents can_start name =
     (length h, h @ [\<lparr>job_payload = Function func func_args, job_parents = parents,
                      job_can_start = can_start, job_label = name\<rparr>])"

text \<open>
  The state the job builders work on: the class attribute \<^verbatim>\<open>NCBI.ncbi_joib_id\<close>, the heap
  of jobs and the file system.
\<close>

record world =
  ncbi_joib_id :: nat
  heap :: "job list"
  files :: filesystem

record ncbi =
  self_tmp_dir :: string
  self_bin_dir :: string
  self_bin :: "string option"

text \<open>
  \<^verbatim>\<open>NCBI.jobs_from_accessions\<close>. \<open>ncbi_tmp_dir\<close> and \<open>ncbi_job_name\<close> are lines 49 and
  52, \<open>ncbi_batch\<close> is the body of the loop for one value of \<^verbatim>\<open>idx\<close>, \<open>ncbi_loop\<close> the
  loop over the values of \<^verbatim>\<open>range(0, len(accessions), 5)\<close>.
\<close>

definition ncbi_tmp_dir :: "ncbi \<Rightarrow> nat \<Rightarrow> string" where
  "ncbi_tmp_dir self i = path_join (self_tmp_dir self) (''ncbi_'' @ str_nat i)"

definition ncbi_job_name :: "nat \<Rightarrow> string" where
  "ncbi_job_name i = ''ncbi_job_'' @ str_nat i"

definition ncbi_batch ::
  "(string \<Rightarrow> path) \<Rightarrow> ncbi \<Rightarrow> string list \<Rightarrow> string \<Rightarrow> nat \<Rightarrow> world
     \<Rightarrow> py_error + ref list \<times> world" where
  "ncbi_batch resolve self accessions dest_dir idx w =
     (let tmp_dir = ncbi_tmp_dir self (ncbi_joib_id w) in
      case makedirs (files w) (resolve tmp_dir) True of
        Inl e \<Rightarrow> Inl e
      | Inr fs \<Rightarrow>
          (let w = w\<lparr>files := fs\<rparr>;
               job_name = ncbi_job_name (ncbi_joib_id w);
               w = w\<lparr>ncbi_joib_id := ncbi_joib_id w + 1\<rparr>;
               acc_slice = take 5 (drop idx accessions);
               download_file = path_join tmp_dir (job_name @ ''.zip'');
               (download_job, h) =
                  CmdLineJob (heap w)
                    (fmt_opt (self_bin self) @ '' download genome accession --dehydrated --filename ''
                       @ download_file @ '' '' @ join_sep '' '' acc_slice)
                    [] (Some Ncbi_delay_ready) None;
               unzip_dir = path_join tmp_dir job_name;
               (unzip_job, h) =
                  CmdLineJob h (''unzip '' @ download_file @ '' -d '' @ unzip_dir)
                    [Some download_job] None None;
               (rehydrate_job, h) =
                  CmdLineJob h
                    (fmt_opt (self_bin self) @ '' rehydrate --gzip --no-progressbar --directory ''
                       @ unzip_dir)
                    [Some unzip_job] (Some Ncbi_delay_ready) None;
               (reorg_job, h) =
                  FunctionJob h Ncbi_clean [unzip_dir, dest_dir, tmp_dir]
                    [Some rehydrate_job] None None
           in Inr ([download_job, unzip_job, rehydrate_job, reorg_job], w\<lparr>heap := h\<rparr>)))"

fun ncbi_loop ::
  "(string \<Rightarrow> path) \<Rightarrow> ncbi \<Rightarrow> string list \<Rightarrow> string \<Rightarrow> nat list \<Rightarrow> ref list \<Rightarrow> world
     \<Rightarrow> py_error + ref list \<times> world" where
  "ncbi_loop resolve self accessions dest_dir [] all_jobs w = Inr (all_jobs, w)"
| "ncbi_loop resolve self accessions dest_dir (idx # idxs) all_jobs w =
     (case ncbi_batch resolve self accessions dest_dir idx w of
        Inl e \<Rightarrow> Inl e
      | Inr (batch, w) \<Rightarrow> ncbi_loop resolve self accessions dest_dir idxs (all_jobs @ batch) w)"

definition ncbi_jobs_from_accessions ::
  "(string \<Rightarrow> path) \<Rightarrow> ncbi \<Rightarrow> string list \<Rightarrow> string \<Rightarrow> world \<Rightarrow> py_error + ref list \<times> world" where
  "ncbi_jobs_from_accessions resolve self accessions dest_dir w =
     (let all_jobs = []
      in ncbi_loop resolve self accessions dest_dir (py_range 0 (length accessions) 5) all_jobs w)"

text \<open>
  The four jobs of one batch as values, for the identifier \<open>i\<close> and the heap position
  \<open>base\<close> of the first of them; \<open>ncbi_expected\<close> lines them up for a list of batches.
  The proofs show that the heap grows by exactly these.
\<close>

definition ncbi_batch_jobs :: "ncbi \<Rightarrow> string \<Rightarrow> string list \<Rightarrow> nat \<Rightarrow> ref \<Rightarrow> job list" where
  "ncbi_batch_jobs self dest_dir acc_slice i base =
     [\<lparr>job_payload = CmdLine (fmt_opt (self_bin self)
           @ '' download genome accession --dehydrated --filename ''
           @ path_join (ncbi_tmp_dir self i) (ncbi_job_name i @ ''.zip'') @ '' ''
           @ join_sep '' '' acc_slice),
        job_parents = [], job_can_start = Some Ncbi_delay_ready, job_label = None\<rparr>,
      \<lparr>job_payload = CmdLine (''unzip ''
           @ path_join (ncbi_tmp_dir self i) (ncbi_job_name i @ ''.zip'') @ '' -d ''
           @ path_join (ncbi_tmp_dir self i) (ncbi_job_name i)),
        job_parents = [Some base], job_can_start = None, job_label = None\<rparr>,
      \<lparr>job_payload = CmdLine (fmt_opt (self_bin self)
           @ '' rehydrate --gzip --no-progressbar --directory ''
           @ path_join (ncbi_tmp_dir self i) (ncbi_job_name i)),
        job_parents = [Some (base + 1)], job_can_start = Some Ncbi_delay_ready, job_label = None\<rparr>,
      \<lparr>job_payload = Function Ncbi_clean
           [path_join (ncbi_tmp_dir self i) (ncbi_job_name i), dest_dir, ncbi_tmp_dir self i],
        job_parents = [Some (base + 2)], job_can_start = None, job_label = None\<rparr>]"

fun ncbi_expected :: "(ncbi \<times> string \<times> string list) list \<Rightarrow> nat \<Rightarrow> ref \<Rightarrow> job list" where
  "ncbi_expected [] i base = []"
| "ncbi_expected ((self, dest_dir, acc_slice) # bs) i base =
     ncbi_batch_jobs self dest_dir acc_slice i base @ ncbi_expected bs (Suc i) (base + 4)"

text \<open>
  A client that calls \<^verbatim>\<open>jobs_from_accessions\<close> several times, one call after the other,
  on any instances; \<open>batches_of\<close> lists the batches of these calls in the order of their
  creation.
\<close>

fun ncbi_calls ::
  "(string \<Rightarrow> path) \<Rightarrow> (ncbi \<times> string list \<times> string) list \<Rightarrow> world
     \<Rightarrow> py_error + ref list list \<times> world" where
  "ncbi_calls resolve [] w = Inr ([], w)"
| "ncbi_calls resolve ((self, accessions, dest_dir) # calls) w =
     (case ncbi_jobs_from_accessions resolve self accessions dest_dir w of
        Inl e \<Rightarrow> Inl e
      | Inr (all_jobs, w) \<Rightarrow>
          (case ncbi_calls resolve calls w of
             Inl e \<Rightarrow> Inl e
           | Inr (returned, w) \<Rightarrow> Inr (all_jobs # returned, w)))"

definition batches_of :: "(ncbi \<times> string list \<times> string) list \<Rightarrow> (ncbi \<times> string \<times> string list) list" where
  "batches_of calls =
     concat (map (\<lambda>(self, accessions, dest_dir).
                    map (\<lambda>idx. (self, dest_dir, take 5 (drop idx accessions)))
                        (py_range 0 (length accessions) 5)) calls)"

text \<open>
  Threads. Lines 49 to 53 take no lock, and Python may switch threads between any two
  statements. A thread in these lines is at one of three statements (reading the counter
  for the directory name, reading it for the job name, incrementing it); a schedule names
  the thread that runs its next statement.
\<close>

datatype ncbi_pc = At_tmp_dir | At_job_name | At_increment | Past_increment

record ncbi_thread =
  pc :: ncbi_pc
  thread_tmp_dir :: "string option"
  thread_job_name :: "string option"

definition thread_start :: ncbi_thread where
  "thread_start = \<lparr>pc = At_tmp_dir, thread_tmp_dir = None, thread_job_name = None\<rparr>"

definition thread_step :: "ncbi \<Rightarrow> nat \<Rightarrow> ncbi_thread \<Rightarrow> nat \<times> ncbi_thread" where
  "thread_step self counter t =
     (case pc t of
        At_tmp_dir \<Rightarrow>
          (counter, t\<lparr>thread_tmp_dir := Some (ncbi_tmp_dir self counter), pc := At_job_name\<rparr>)
      | At_job_name \<Rightarrow>
          (counter, t\<lparr>thread_job_name := Some (ncbi_job_name counter), pc := At_increment\<rparr>)
      | At_increment \<Rightarrow> (counter + 1, t\<lparr>pc := Past_increment\<rparr>)
      | Past_increment \<Rightarrow> (counter, t))"

fun interleave :: "ncbi \<Rightarrow> nat list \<Rightarrow> nat \<times> ncbi_thread list \<Rightarrow> nat \<times> ncbi_thread list" where
  "interleave self [] st = st"
| "interleave self (i # schedule) (counter, threads) =
     (if i < length threads
      then (case thread_step self counter (threads ! i) of
              (counter', t') \<Rightarrow> interleave self schedule (counter', threads[i := t']))
      else interleave self schedule (counter, threads))"

text \<open>Concrete inputs for the examples.\<close>

definition example_ncbi :: ncbi where
  "example_ncbi = \<lparr>self_tmp_dir = ''/tmp'', self_bin_dir = ''bin'', self_bin = Some ''datasets''\<rparr>"

definition empty_world :: world where
  "empty_world = \<lparr>ncbi_joib_id = 0, heap = [], files = Map.empty\<rparr>"

definition example_ncbi_run :: "py_error + ref list \<times> world" where
  "example_ncbi_run =
     ncbi_jobs_from_accessions components example_ncbi
       [''GCA_1'', ''GCA_2'', ''GCA_3'', ''GCA_4'', ''GCA_5'', ''GCA_6''] ''data'' empty_world"

definition example_ncbi_calls :: "py_error + ref list list \<times> world" where
  "example_ncbi_calls =
     ncbi_calls components
       [(example_ncbi, [''GCA_1'', ''GCA_2'', ''GCA_3'', ''GCA_4'', ''GCA_5'', ''GCA_6''], ''data''),
        (example_ncbi, [''GCA_7''], ''data'')] empty_world"

section \<open>SRA.jobs_from_accessions (register/sources/sra.py)\<close>

text \<open>
  The downloader object: its directories and \<^verbatim>\<open>self.binaries\<close>, a dictionary or
  \<^verbatim>\<open>None\<close>. Subscripting \<^verbatim>\<open>None\<close> raises \<^verbatim>\<open>TypeError\<close>.
\<close>

record sra =
  self_tmpdir :: string
  self_bindir :: string
  self_binaries :: "(string \<times> string) list option"

definition binaries_get :: "sra \<Rightarrow> string \<Rightarrow> py_error + string" where
  "binaries_get self key =
     (case self_binaries self of None \<Rightarrow> Inl TypeError | Some d \<Rightarrow> dict_get d key)"

definition jobs_from_SRR ::
  "sra \<Rightarrow> string \<Rightarrow> string \<Rightarrow> job list \<Rightarrow> py_error + ref list \<times> job list" where
  "jobs_from_SRR self accession_dir job_name h =
     (case binaries_get self ''fasterq-dump'' of
        Inl e \<Rightarrow> Inl e
      | Inr fasterq_dump \<Rightarrow>
          (let cmd = fasterq_dump @ '' --split-3 --skip-technical --outdir '' @ accession_dir
                       @ '' '' @ accession_dir;
               (fasterqdump_job, h) =
                  CmdLineJob h cmd [] (Some Sra_delay_ready) (Some (job_name @ ''_fasterqdump''));
               cmd = ''gzip '' @ path_join accession_dir ''*.fastq'';
               (compress_job, h) =
                  CmdLineJob h cmd [Some fasterqdump_job] None (Some (job_name @ ''_compress''))
           in Inr ([fasterqdump_job, compress_job], h)))"

definition jobs_from_SRXP :: "sra \<Rightarrow> string \<Rightarrow> string \<Rightarrow> job list \<Rightarrow> ref list \<times> job list" where
  "jobs_from_SRXP self acc_dir job_name h =
     (let (SRXP_subjob, h) =
            FunctionJob h Sra_run_fasterqdump_from_SRXP [acc_dir] [] None
              (Some (job_name @ ''_fasterqdump+gzip''))
      in ([SRXP_subjob], h))"

text \<open>
  Lines 123 to 136 of \<^verbatim>\<open>jobs_from_accessions\<close>: the prefetch job and the fasterq-dump
  jobs of one accession, by the prefix of the accession.
\<close>

definition build_jobs ::
  "sra \<Rightarrow> string \<Rightarrow> string \<Rightarrow> string \<Rightarrow> job list
     \<Rightarrow> py_error + ref option \<times> ref list \<times> job list" where
  "build_jobs self acc acc_dir job_name h =
     (let prefetch_job = None;
          fasterq_dump_jobs = []
      in if prefix ''SRR'' acc then
           (case binaries_get self ''prefetch'' of
              Inl e \<Rightarrow> Inl e
            | Inr prefetch \<Rightarrow>
                (let cmd = prefetch @ '' --max-size u --output-directory '' @ self_tmpdir self
                             @ '' '' @ acc;
                     (prefetch_job, h) =
                        CmdLineJob h cmd [] (Some Sra_delay_ready) (Some (job_name @ ''_prefetch''))
                 in case jobs_from_SRR self acc_dir job_name h of
                      Inl e \<Rightarrow> Inl e
                    | Inr (fasterq_dump_jobs, h) \<Rightarrow> Inr (Some prefetch_job, fasterq_dump_jobs, h)))
         else if prefix ''SRX'' acc \<or> prefix ''SRP'' acc then
           (case binaries_get self ''prefetch'' of
              Inl e \<Rightarrow> Inl e
            | Inr prefetch \<Rightarrow>
                (let cmd = prefetch @ '' --max-size u --output-directory '' @ acc_dir
                             @ '' '' @ acc;
                     (prefetch_job, h) =
                        CmdLineJob h cmd [] (Some Sra_delay_ready) (Some (job_name @ ''_prefetch''));
                     (fasterq_dump_jobs, h) = jobs_from_SRXP self acc_dir job_name h
                 in Inr (Some prefetch_job, fasterq_dump_jobs, h)))
         else Inr (prefetch_job, fasterq_dump_jobs, h))"

text \<open>
  Lines 139 and 140: \<^verbatim>\<open>for job in fasterq_dump_jobs: job.parents.append(prefetch_job)\<close>.
  The jobs are updated in the heap, where every holder of a reference sees the change.
\<close>

fun append_parent :: "ref list \<Rightarrow> ref option \<Rightarrow> job list \<Rightarrow> job list" where
  "append_parent [] parent h = h"
| "append_parent (job # jobs) parent h =
     append_parent jobs parent (h[job := (h ! job)\<lparr>job_parents := job_parents (h ! job) @ [parent]\<rparr>])"

text \<open>
  The body of the loop for one accession (\<open>sra_accession\<close>, on the list built so far and
  the state), the loop, and the function. An accession whose directory exists in the data
  directory is skipped; the logger is not modelled.
\<close>

definition already_downloaded :: "(string \<Rightarrow> path) \<Rightarrow> string \<Rightarrow> string \<Rightarrow> world \<Rightarrow> bool" where
  "already_downloaded resolve datadir acc w =
     path_exists (files w) (resolve (path_join datadir acc))"

definition sra_accession ::
  "(string \<Rightarrow> path) \<Rightarrow> sra \<Rightarrow> string \<Rightarrow> string \<Rightarrow> ref option list \<times> world
     \<Rightarrow> py_error + ref option list \<times> world" where
  "sra_accession resolve self datadir acc st =
     (case st of (jobs, w) \<Rightarrow>
      if already_downloaded resolve datadir acc w then Inr (jobs, w)
      else
        (let job_name = ''sra_'' @ acc;
             acc_dir = path_join (self_tmpdir self) acc
         in case (if path_exists (files w) (resolve acc_dir)
                  then rmtree (files w) (resolve acc_dir) else Inr (files w)) of
              Inl e \<Rightarrow> Inl e
            | Inr fs \<Rightarrow>
                (case makedirs fs (resolve acc_dir) False of
                   Inl e \<Rightarrow> Inl e
                 | Inr fs \<Rightarrow>
                     (case build_jobs self acc acc_dir job_name (heap w) of
                        Inl e \<Rightarrow> Inl e
                      | Inr (prefetch_job, fasterq_dump_jobs, h) \<Rightarrow>
                          (let h = append_parent fasterq_dump_jobs prefetch_job h;
                               (clean_job, h) =
                                  FunctionJob h Sra_move_and_clean [acc_dir, datadir]
                                    (map Some fasterq_dump_jobs) None (Some (job_name @ ''_clean''));
                               jobs = jobs @ [prefetch_job];
                               jobs = jobs @ map Some fasterq_dump_jobs;
                               jobs = jobs @ [Some clean_job]
                           in Inr (jobs, w\<lparr>files := fs, heap := h\<rparr>))))))"

fun sra_loop ::
  "(string \<Rightarrow> path) \<Rightarrow> sra \<Rightarrow> string \<Rightarrow> string list \<Rightarrow> ref option list \<times> world
     \<Rightarrow> py_error + ref option list \<times> world" where
  "sra_loop resolve self datadir [] st = Inr st"
| "sra_loop resolve self datadir (acc # accessions) st =
     (case sra_accession resolve self datadir acc st of
        Inl e \<Rightarrow> Inl e
      | Inr st \<Rightarrow> sra_loop resolve self datadir accessions st)"

definition sra_jobs_from_accessions ::
  "(string \<Rightarrow> path) \<Rightarrow> sra \<Rightarrow> string list \<Rightarrow> string \<Rightarrow> world
     \<Rightarrow> py_error + ref option list \<times> world" where
  "sra_jobs_from_accessions resolve self accessions datadir w =
     (let jobs = [] in sra_loop resolve self datadir accessions (jobs, w))"

text \<open>
  The accessions the loop does not skip: those that are not already downloaded when the loop
  reaches them.
\<close>

fun processed ::
  "(string \<Rightarrow> path) \<Rightarrow> sra \<Rightarrow> string \<Rightarrow> string list \<Rightarrow> ref option list \<times> world \<Rightarrow> string list" where
  "processed resolve self datadir [] st = []"
| "processed resolve self datadir (acc # accessions) st =
     (case sra_accession resolve self datadir acc st of
        Inl e \<Rightarrow> []
      | Inr st' \<Rightarrow>
          (if already_downloaded resolve datadir acc (snd st) then [] else [acc])
            @ processed resolve self datadir accessions st')"

text \<open>Concrete inputs for the examples.\<close>

definition example_sra :: sra where
  "example_sra = \<lparr>self_tmpdir = ''tmp'', self_bindir = ''bin'',
      self_binaries = Some [(''prefetch'', ''prefetch''), (''fasterq-dump'', ''fasterq-dump'')]\<rparr>"

definition example_sra_world :: world where
  "example_sra_world = \<lparr>ncbi_joib_id = 0, heap = [],
      files = [[''data''] \<mapsto> Dir, [''data'', ''SRR2''] \<mapsto> Dir, [''tmp''] \<mapsto> Dir]\<rparr>"

definition example_sra_run :: "py_error + ref option list \<times> world" where
  "example_sra_run =
     sra_jobs_from_accessions components example_sra [''SRR1'', ''SRR2'', ''SRX3'', ''ERR4'']
       ''data'' example_sra_world"

definition example_sra_reach :: "py_error + ref option list \<times> world" where
  "example_sra_reach =
     sra_loop components example_sra ''data'' [''SRR1'', ''SRR2''] ([], example_sra_world)"

definition example_sra_built :: "py_error + ref option \<times> ref list \<times> job list" where
  "example_sra_built =
     build_jobs example_sra ''SRX3'' (path_join (self_tmpdir example_sra) ''SRX3'')
       (''sra_'' @ ''SRX3'') (heap (snd (projr example_sra_reach)))"

definition example_sra_run_known :: "py_error + ref option list \<times> world" where
  "example_sra_run_known =
     sra_jobs_from_accessions components example_sra [''SRR1'', ''SRR2'', ''SRX3'']
       ''data'' example_sra_world"

section \<open>Properties of the gates\<close>








lemma round_half_even_of_int [simp]: "round_half_even (of_int n) = n"
  by (simp add: round_half_even_def)

















lemma ncbi_delay_ready_held:
  "ncbi_mutex self \<Longrightarrow> ncbi_delay_ready self t_check t_store = (False, self)"
  by (simp add: ncbi_delay_ready_def acquire_nonblocking_def Let_def)

lemma sra_delay_ready_held:
  "sra_mutex self \<Longrightarrow> sra_delay_ready self t_check t_store = (False, self)"
  by (simp add: sra_delay_ready_def acquire_nonblocking_def Let_def)




text \<open>
  Claim C2. When the try-lock is not acquired (the lock is held), the gate returns false,
  as a value of a total function (it does not wait for the lock), and the whole state of the
  gate, the stored time of the last query included, is unchanged.
\<close>

theorem C2_gate_contended_returns_false:
  "(\<not> fst (acquire_nonblocking (ncbi_mutex n)) \<longrightarrow>
      ncbi_delay_ready n t_check t_store = (False, n)) \<and>
   (\<not> fst (acquire_nonblocking (sra_mutex s)) \<longrightarrow>
      sra_delay_ready s t_check t_store = (False, s))"
  by (cases "ncbi_mutex n"; cases "sra_mutex s")
     (simp_all add: acquire_nonblocking_def ncbi_delay_ready_held sra_delay_ready_held)

theorem C2_gate_contended_witness:
  "\<not> fst (acquire_nonblocking (ncbi_mutex \<lparr>ncbi_mutex = True, last_ncbi_query = 3\<rparr>)) \<and>
   \<not> fst (acquire_nonblocking (sra_mutex (sra_gate_init\<lparr>sra_mutex := True\<rparr>))) \<and>
   ncbi_delay_ready \<lparr>ncbi_mutex = True, last_ncbi_query = 3\<rparr> 100 101 =
     (False, \<lparr>ncbi_mutex = True, last_ncbi_query = 3\<rparr>) \<and>
   sra_delay_ready (sra_gate_init\<lparr>sra_mutex := True\<rparr>) 100 101 =
     (False, sra_gate_init\<lparr>sra_mutex := True\<rparr>)"
  using C2_gate_contended_returns_false
          [of "\<lparr>ncbi_mutex = True, last_ncbi_query = 3\<rparr>" 100 101
              "sra_gate_init\<lparr>sra_mutex := True\<rparr>"]
  by (simp add: acquire_nonblocking_def sra_gate_init_def)

section \<open>Properties of the submission loop and of the engine lifecycle\<close>

lemma dict_get_distinct:
  "distinct (map fst d) \<Longrightarrow> (k, v) \<in> set d \<Longrightarrow> dict_get d k = Inr v"
  by (simp add: dict_get_def)

lemma round_of_Cons:
  "round_of ((s, js) # rest) k = (if k < length js then [js ! k] else []) @ round_of rest k"
  by (simp add: round_of_def)

lemma round_of_Nil: "round_of [] k = []"
  by (simp add: round_of_def)

lemma submit_round_entries:
  assumes "distinct (map fst jobs)"
  shows "set ents \<subseteq> set jobs \<Longrightarrow> distinct (map fst ents) \<Longrightarrow>
    (\<forall>(s, js) \<in> set ents. idxs s = Some (min k (length js))) \<Longrightarrow>
    submit_round jobs (map fst ents) (idxs, tot, manager) =
      Inr (\<lambda>s. if s \<in> fst ` set ents then idxs_at jobs (Suc k) s else idxs s,
           tot - int (length (round_of ents k)),
           manager @ map AddJob (round_of ents k))"
proof (induction ents arbitrary: idxs tot manager)
  case Nil
  then show ?case by (simp add: round_of_Nil)
next
  case (Cons e ents)
  obtain s js where e: "e = (s, js)" by (cases e)
  from Cons.prems e have mem: "(s, js) \<in> set jobs" by simp
  have get: "dict_get jobs s = Inr js"
    using dict_get_distinct [OF assms mem] .
  have mo: "map_of jobs s = Some js" using assms mem by simp
  have ix: "idxs s = Some (min k (length js))" using Cons.prems(3) e by simp
  have notin: "s \<notin> fst ` set ents" using Cons.prems(2) e by simp
  have sub: "set ents \<subseteq> set jobs" and dis: "distinct (map fst ents)"
    using Cons.prems by simp_all
  show ?case
  proof (cases "k < length js")
    case True
    have pre: "\<forall>(s', js') \<in> set ents. (idxs(s \<mapsto> Suc k)) s' = Some (min k (length js'))"
    proof (clarify)
      fix s' js' assume m: "(s', js') \<in> set ents"
      then have "s' \<noteq> s" using notin by force
      moreover have "idxs s' = Some (min k (length js'))" using Cons.prems(3) m by auto
      ultimately show "(idxs(s \<mapsto> Suc k)) s' = Some (min k (length js'))" by simp
    qed
    have "submit_round jobs (map fst (e # ents)) (idxs, tot, manager) =
          submit_round jobs (map fst ents) (idxs(s \<mapsto> Suc k), tot - 1, manager @ [AddJob (js ! k)])"
      using True by (simp add: e ix get min_def)
    also have "\<dots> = Inr (\<lambda>s'. if s' \<in> fst ` set ents then idxs_at jobs (Suc k) s' else (idxs(s \<mapsto> Suc k)) s',
           tot - 1 - int (length (round_of ents k)),
           (manager @ [AddJob (js ! k)]) @ map AddJob (round_of ents k))"
      by (rule Cons.IH [OF sub dis pre])
    also have "\<dots> = Inr (\<lambda>s'. if s' \<in> fst ` set (e # ents) then idxs_at jobs (Suc k) s' else idxs s',
           tot - int (length (round_of (e # ents) k)),
           manager @ map AddJob (round_of (e # ents) k))"
      using True by (auto simp: e round_of_Cons idxs_at_def mo fun_eq_iff min_def)
    finally show ?thesis .
  next
    case False
    have pre: "\<forall>(s', js') \<in> set ents. idxs s' = Some (min k (length js'))"
      using Cons.prems(3) by auto
    have "submit_round jobs (map fst (e # ents)) (idxs, tot, manager) =
          submit_round jobs (map fst ents) (idxs, tot, manager)"
      using False by (simp add: e ix get min_def)
    also have "\<dots> = Inr (\<lambda>s'. if s' \<in> fst ` set ents then idxs_at jobs (Suc k) s' else idxs s',
           tot - int (length (round_of ents k)),
           manager @ map AddJob (round_of ents k))"
      by (rule Cons.IH [OF sub dis pre])
    also have "\<dots> = Inr (\<lambda>s'. if s' \<in> fst ` set (e # ents) then idxs_at jobs (Suc k) s' else idxs s',
           tot - int (length (round_of (e # ents) k)),
           manager @ map AddJob (round_of (e # ents) k))"
      using False ix by (auto simp: e round_of_Cons idxs_at_def mo fun_eq_iff min_def)
    finally show ?thesis .
  qed
qed

lemma total_at_step:
  "total_at jobs k - int (length (round_of jobs k)) = total_at jobs (Suc k)"
proof (induction jobs)
  case Nil
  show ?case by (simp add: total_at_def round_of_Nil)
next
  case (Cons e jobs)
  obtain s js where e: "e = (s, js)" by (cases e)
  from Cons show ?case
    by (auto simp: e total_at_def round_of_Cons)
qed

lemma total_at_nonneg: "0 \<le> total_at jobs k"
  unfolding total_at_def by (induction jobs) auto

lemma total_at_pos: "0 < total_at jobs k \<longleftrightarrow> k < rounds jobs"
proof (induction jobs)
  case Nil
  show ?case by (simp add: total_at_def rounds_def)
next
  case (Cons e jobs)
  obtain s js where e: "e = (s, js)" by (cases e)
  have nn: "0 \<le> total_at jobs k" by (rule total_at_nonneg)
  have "total_at (e # jobs) k = int (length js - k) + total_at jobs k"
    by (simp add: e total_at_def)
  moreover have "rounds (e # jobs) = max (length js) (rounds jobs)"
    by (simp add: e rounds_def)
  ultimately show ?case using Cons nn by auto
qed

lemma submit_round_full:
  assumes "distinct (map fst jobs)"
  shows "submit_round jobs (map fst jobs) (idxs_at jobs k, total_at jobs k, manager) =
      Inr (idxs_at jobs (Suc k), total_at jobs (Suc k), manager @ map AddJob (round_of jobs k))"
proof -
  have pre: "\<forall>(s, js) \<in> set jobs. idxs_at jobs k s = Some (min k (length js))"
    using assms by (auto simp: idxs_at_def)
  have eq: "(\<lambda>s. if s \<in> fst ` set jobs then idxs_at jobs (Suc k) s else idxs_at jobs k s) =
        idxs_at jobs (Suc k)"
  proof
    fix s
    show "(if s \<in> fst ` set jobs then idxs_at jobs (Suc k) s else idxs_at jobs k s) =
        idxs_at jobs (Suc k) s"
    proof (cases "s \<in> fst ` set jobs")
      case True
      then show ?thesis by simp
    next
      case False
      then have "map_of jobs s = None" by (simp add: map_of_eq_None_iff)
      then show ?thesis using False by (simp add: idxs_at_def)
    qed
  qed
  show ?thesis
    using submit_round_entries [OF assms subset_refl assms pre, of "total_at jobs k" manager]
    by (simp add: eq total_at_step)
qed

lemma submit_while_from:
  assumes "distinct (map fst jobs)"
  shows "k \<le> rounds jobs \<Longrightarrow>
    submit_while jobs (idxs_at jobs k, total_at jobs k, manager) =
      Some (Inr (idxs_at jobs (rounds jobs), 0,
                 manager @ map AddJob (concat (map (round_of jobs) [k..<rounds jobs]))))"
proof (induction "rounds jobs - k" arbitrary: k manager)
  case 0
  then have k: "k = rounds jobs" by simp
  have "\<not> 0 < total_at jobs k" using k by (simp add: total_at_pos)
  moreover have "0 \<le> total_at jobs k" by (rule total_at_nonneg)
  ultimately have z: "total_at jobs k = 0" by simp
  show ?case
    using z unfolding k by (subst submit_while.simps) simp
next
  case (Suc n)
  then have lt: "k < rounds jobs" by simp
  then have pos: "0 < total_at jobs k" by (simp add: total_at_pos)
  have n: "n = rounds jobs - Suc k" using Suc.hyps(2) by simp
  have le: "Suc k \<le> rounds jobs" using lt by simp
  have "submit_while jobs (idxs_at jobs k, total_at jobs k, manager) =
        submit_while jobs (idxs_at jobs (Suc k), total_at jobs (Suc k),
                           manager @ map AddJob (round_of jobs k))"
    by (subst submit_while.simps) (simp add: pos submit_round_full [OF assms])
  also have "\<dots> = Some (Inr (idxs_at jobs (rounds jobs), 0,
       (manager @ map AddJob (round_of jobs k)) @
        map AddJob (concat (map (round_of jobs) [Suc k..<rounds jobs]))))"
    by (rule Suc.hyps(1) [OF n le])
  finally show ?case using lt by (simp add: upt_conv_Cons)
qed

lemma total_len_keys:
  assumes "distinct (map fst jobs)"
  shows "set ents \<subseteq> set jobs \<Longrightarrow>
    total_len jobs (map fst ents) = Inr (\<Sum>(s, js)\<leftarrow>ents. int (length js))"
proof (induction ents)
  case Nil
  show ?case by simp
next
  case (Cons e ents)
  obtain s js where e: "e = (s, js)" by (cases e)
  from Cons.prems e have mem: "(s, js) \<in> set jobs" by simp
  show ?case using Cons dict_get_distinct [OF assms mem] by (simp add: e)
qed

lemma submit_jobs_round_robin:
  assumes "distinct (map fst jobs)"
  shows "submit_jobs jobs manager = Some (Inr (manager @ map AddJob (round_robin jobs)))"
proof -
  have i0: "map_of (map (\<lambda>source. (source, 0)) (map fst jobs)) = idxs_at jobs 0"
    by (induction jobs) (auto simp: idxs_at_def fun_eq_iff)
  have t0: "total_len jobs (map fst jobs) = Inr (total_at jobs 0)"
    using total_len_keys [OF assms subset_refl] by (simp add: total_at_def)
  show ?thesis
    using submit_while_from [OF assms, of 0 manager]
    by (simp add: submit_jobs_def i0 t0 round_robin_def del: map_map)
qed

lemma concat_pick_take:
  "concat (map (\<lambda>k. if k < length js then [js ! k] else []) [0..<n]) = take n js"
  by (induction n) (simp_all add: take_Suc_conv_app_nth)

lemma concat_pick:
  "length js \<le> n \<Longrightarrow> concat (map (\<lambda>k. if k < length js then [js ! k] else []) [0..<n]) = js"
  by (simp add: concat_pick_take)

lemma mset_concat_append_fun:
  "mset (concat (map (\<lambda>k. f k @ g k) ks)) = mset (concat (map f ks)) + mset (concat (map g ks))"
  by (induction ks) simp_all

lemma rounds_Cons: "rounds ((s, js) # rest) = max (length js) (rounds rest)"
  by (simp add: rounds_def)

lemma round_of_beyond: "rounds jobs \<le> k \<Longrightarrow> round_of jobs k = []"
proof (induction jobs)
  case Nil
  show ?case by (simp add: round_of_Nil)
next
  case (Cons e jobs)
  obtain s js where e: "e = (s, js)" by (cases e)
  from Cons show ?case by (simp add: e round_of_Cons rounds_Cons)
qed

lemma mset_rounds_upto:
  "rounds jobs \<le> n \<Longrightarrow>
   mset (concat (map (round_of jobs) [0..<n])) = mset (concat (map snd jobs))"
proof (induction jobs)
  case Nil
  show ?case by (simp add: round_of_Nil)
next
  case (Cons e jobs)
  obtain s js where e: "e = (s, js)" by (cases e)
  from Cons.prems have l: "length js \<le> n" and r: "rounds jobs \<le> n"
    by (simp_all add: e rounds_Cons)
  have "round_of (e # jobs) = (\<lambda>k. (if k < length js then [js ! k] else []) @ round_of jobs k)"
    by (simp add: e round_of_Cons fun_eq_iff)
  then show ?case
    using Cons.IH [OF r] concat_pick [OF l]
    by (simp add: mset_concat_append_fun e)
qed

lemma mset_round_robin: "mset (round_robin jobs) = mset (concat (map snd jobs))"
  by (simp add: round_robin_def mset_rounds_upto)



lemma round_of_transpose:
  "round_of jobs k = map (\<lambda>xs. xs ! k) (filter (\<lambda>ys. k < length ys) (map snd jobs))"
  by (simp add: round_of_def filter_map comp_def case_prod_unfold)

lemma rounds_transpose: "rounds jobs = length (transpose (map snd jobs))"
  by (simp add: rounds_def length_transpose foldr_map comp_def case_prod_unfold)

lemma round_robin_transpose: "round_robin jobs = concat (transpose (map snd jobs))"
proof -
  have "transpose (map snd jobs) =
        map (\<lambda>k. transpose (map snd jobs) ! k) [0..<length (transpose (map snd jobs))]"
    by (simp add: map_nth)
  also have "\<dots> = map (round_of jobs) [0..<rounds jobs]"
    unfolding rounds_transpose
    by (rule map_cong) (simp_all add: nth_transpose round_of_transpose)
  finally show ?thesis by (simp add: round_robin_def)
qed

lemma wait_remaining_shape:
  "wait_remaining answers manager =
     (0 \<in> set answers,
      manager @ map RemainingJobs (takeWhile (\<lambda>n. 0 < n) answers) @
        (if 0 \<in> set answers then [RemainingJobs 0] else []))"
  by (induction answers arbitrary: manager) auto

lemma lifecycle_adds: "lifecycle_ok Adding (map AddJob js @ tr) = lifecycle_ok Adding tr"
  by (induction js) simp_all

lemma lifecycle_polls:
  "\<forall>n \<in> set ns. 0 < n \<Longrightarrow>
   lifecycle_ok Polling (map RemainingJobs ns @ tr) = lifecycle_ok Polling tr"
  by (induction ns) simp_all

lemma lifecycle_polls_adding:
  "\<forall>n \<in> set ns. 0 < n \<Longrightarrow>
   lifecycle_ok Adding (map RemainingJobs ns @ tr) =
     lifecycle_ok (if ns = [] then Adding else Polling) tr"
  by (cases ns) (simp_all add: lifecycle_polls)

lemma lifecycle_shape:
  assumes "\<forall>n \<in> set ns. 0 < n"
  shows "lifecycle_ok NotStarted
     (Start # map AddJob js @ map RemainingJobs ns @
        (if d then [RemainingJobs 0, Stop, Join] else []))"
  by (simp add: lifecycle_adds lifecycle_polls_adding [OF assms])

lemma run_engine_shape:
  assumes "distinct (map fst jobs)"
  shows "run_engine jobs answers =
     Some (Inr (0 \<in> set answers,
       Start # map AddJob (round_robin jobs) @
         map RemainingJobs (takeWhile (\<lambda>n. 0 < n) answers) @
         (if 0 \<in> set answers then [RemainingJobs 0, Stop, Join] else [])))"
  by (simp add: run_engine_def submit_jobs_round_robin [OF assms] wait_remaining_shape)

lemma split_sep_nonempty: "split_sep sep s \<noteq> []"
  by (induction s) (auto split: list.splits)

lemma split_sep_no_sep: "sep \<notin> set s \<Longrightarrow> split_sep sep s = [s]"
  by (induction s) auto

lemma split_sep_append:
  "sep \<notin> set s \<Longrightarrow> split_sep sep (s @ sep # t) = s # split_sep sep t"
  by (induction s) auto

lemma check_binary_argv:
  "CHR '' '' \<notin> set p \<Longrightarrow> split_sep CHR '' '' (p @ '' --version'') = [p, ''--version'']"
  by (simp add: split_sep_append)

lemma subseq_concat_map:
  "(\<And>k. subseq (f k) (g k)) \<Longrightarrow> subseq (concat (map f ks)) (concat (map g ks))"
  by (induction ks) (simp_all add: list_emb_append_mono)

lemma round_of_member:
  "(s, js) \<in> set jobs \<Longrightarrow> k < length js \<Longrightarrow> js ! k \<in> set (round_of jobs k)"
  by (force simp: round_of_def)

lemma subseq_round_robin:
  assumes "(s, js) \<in> set jobs"
  shows "subseq js (round_robin jobs)"
proof -
  have len: "length js \<le> rounds jobs"
    using assms by (induction jobs) (auto simp: rounds_def)
  have "subseq (concat (map (\<lambda>k. if k < length js then [js ! k] else []) [0..<rounds jobs]))
               (concat (map (round_of jobs) [0..<rounds jobs]))"
    by (rule subseq_concat_map) (simp add: round_of_member [OF assms] subseq_singleton_left)
  then show ?thesis by (simp add: concat_pick [OF len] round_robin_def)
qed

text \<open>
  Claim C3. For every dictionary of job lists (an association list with distinct keys) the
  submission loop of \<^verbatim>\<open>download_to\<close> terminates without an exception and has then
  added to the manager exactly the jobs of the round-robin order, after what the manager
  already held: in each round one job from every source that still has one, in the order
  of the sources. Every job is added exactly once (the added jobs are, as a multiset, the
  jobs of all the lists), every source's list is a subsequence of the added jobs (its own
  order is kept), and the order is the column-by-column reading of the lists.
\<close>

theorem C3_submission_round_robin:
  assumes "distinct (map fst jobs)"
  shows "submit_jobs jobs manager = Some (Inr (manager @ map AddJob (round_robin jobs))) \<and>
         mset (round_robin jobs) = mset (concat (map snd jobs)) \<and>
         (\<forall>(s, js) \<in> set jobs. subseq js (round_robin jobs)) \<and>
         round_robin jobs = concat (transpose (map snd jobs))"
  using assms
  by (auto simp: submit_jobs_round_robin mset_round_robin round_robin_transpose [symmetric]
        intro: subseq_round_robin)

theorem C3_submission_witness:
  "distinct (map fst [(''ncbi'', [1, 2, 3 :: nat]), (''sra'', [4]), (''ena'', []), (''url'', [5, 6])]) \<and>
   submit_jobs [(''ncbi'', [1, 2, 3 :: nat]), (''sra'', [4]), (''ena'', []), (''url'', [5, 6])] [Start] =
     Some (Inr [Start, AddJob 1, AddJob 4, AddJob 5, AddJob 2, AddJob 6, AddJob 3])"
proof -
  have r: "round_robin [(''ncbi'', [1, 2, 3 :: nat]), (''sra'', [4]), (''ena'', []), (''url'', [5, 6])] =
           [1, 4, 5, 2, 6, 3]"
    by code_simp
  show ?thesis
    using C3_submission_round_robin
      [of "[(''ncbi'', [1, 2, 3 :: nat]), (''sra'', [4]), (''ena'', []), (''url'', [5, 6])]" "[Start]"]
    unfolding r by simp
qed

text \<open>
  Claim C5. In every run of \<^verbatim>\<open>download_to\<close>, observed as far as the answers of
  \<^verbatim>\<open>remaining_jobs()\<close> reach, the calls on the manager are: \<^verbatim>\<open>start()\<close>, then all the
  \<^verbatim>\<open>add_job()\<close> calls, then the \<^verbatim>\<open>remaining_jobs()\<close> calls that returned a positive
  number; \<^verbatim>\<open>stop()\<close> and \<^verbatim>\<open>join()\<close> come, in this order, only right after a call of
  \<^verbatim>\<open>remaining_jobs()\<close> that returned 0, and not at all while no call has returned 0.
\<close>

theorem C5_engine_lifecycle_order:
  assumes "distinct (map fst jobs)"
  shows "\<exists>tr. run_engine jobs answers = Some (Inr (0 \<in> set answers, tr)) \<and>
           lifecycle_ok NotStarted tr \<and>
           tr = Start # map AddJob (round_robin jobs) @
                  map RemainingJobs (takeWhile (\<lambda>n. 0 < n) answers) @
                  (if 0 \<in> set answers then [RemainingJobs 0, Stop, Join] else [])"
proof -
  have pos: "\<forall>n \<in> set (takeWhile (\<lambda>n. 0 < n) answers). 0 < n"
    by (auto dest: set_takeWhileD)
  show ?thesis
    using lifecycle_shape [OF pos, of "round_robin jobs" "0 \<in> set answers"]
    by (simp add: run_engine_shape [OF assms])
qed

theorem C5_engine_lifecycle_witness:
  "distinct (map fst [(''ncbi'', [1, 2 :: nat]), (''sra'', [3])]) \<and>
   run_engine [(''ncbi'', [1, 2 :: nat]), (''sra'', [3])] [3, 1, 0, 7] =
     Some (Inr (True, [Start, AddJob 1, AddJob 3, AddJob 2,
                       RemainingJobs 3, RemainingJobs 1, RemainingJobs 0, Stop, Join])) \<and>
   run_engine [(''ncbi'', [1, 2 :: nat]), (''sra'', [3])] [3, 1] =
     Some (Inr (False, [Start, AddJob 1, AddJob 3, AddJob 2, RemainingJobs 3, RemainingJobs 1]))"
proof -
  have r: "round_robin [(''ncbi'', [1, 2 :: nat]), (''sra'', [3])] = [1, 3, 2]"
    by code_simp
  show ?thesis
    using C5_engine_lifecycle_order [of "[(''ncbi'', [1, 2 :: nat]), (''sra'', [3])]" "[3, 1, 0, 7]"]
          C5_engine_lifecycle_order [of "[(''ncbi'', [1, 2 :: nat]), (''sra'', [3])]" "[3, 1]"]
    unfolding r by simp
qed

text \<open>
  For a path without a space the command line splits into the path and \<^verbatim>\<open>--version\<close>,
  and \<^verbatim>\<open>check_binary\<close> is true exactly when that process completes with return code 0.
\<close>

lemma check_binary_no_space:
  assumes "CHR '' '' \<notin> set p"
  shows "(check_binary run p = Inr True \<longleftrightarrow> run [p, ''--version''] = Completed 0) \<and>
         (run [p, ''--version''] = Raised FileNotFoundError \<longrightarrow> check_binary run p = Inr False)"
  by (auto simp: check_binary_def check_binary_argv [OF assms] split: proc_result.splits)

lemma check_binary_absent:
  "run (split_sep CHR '' '' (p @ '' --version'')) = Raised FileNotFoundError \<Longrightarrow>
   check_binary run p = Inr False"
  by (simp add: check_binary_def)

text \<open>
  Claim C10. \<^verbatim>\<open>check_binary\<close> catches \<^verbatim>\<open>FileNotFoundError\<close> and returns true exactly when
  the probed path, run with \<^verbatim>\<open>--version\<close>, completes with return code 0. The code splits
  the command line at every space, so for a path with a space it runs another program: here
  \<^verbatim>\<open>/opt/my tools/datasets --version\<close> completes with return code 0, no program
  \<^verbatim>\<open>/opt/my\<close> exists, and \<^verbatim>\<open>check_binary\<close> returns false.
\<close>

theorem C10_check_binary_path_with_space:
  "check_binary
     (\<lambda>argv. if argv = [''/opt/my tools/datasets'', ''--version''] then Completed 0
              else Raised FileNotFoundError)
     ''/opt/my tools/datasets'' = Inr False"
  by (simp add: check_binary_def)

section \<open>Properties of the directories of download_to\<close>

lemma mkdir_Inr:
  "mkdir fs p = Inr fs' \<Longrightarrow> fs' = fs(p \<mapsto> Dir) \<and> fs p = None \<and> p \<noteq> []"
  by (auto simp: mkdir_def path_exists_def node_at_def split: if_splits option.splits node.splits)

lemma makedirs_effect:
  "makedirs fs name exist_ok = Inr fs' \<Longrightarrow>
   path_isdir fs' name \<and>
   (\<forall>q. fs' q = fs q \<or> (fs q = None \<and> fs' q = Some Dir \<and> prefix q name))"
proof (induction fs name exist_ok arbitrary: fs' rule: makedirs.induct)
  case (1 fs name exist_ok)
  define fs1r where "fs1r = (if name \<noteq> [] \<and> \<not> path_exists fs (butlast name)
            then (case makedirs fs (butlast name) exist_ok of
                    Inl e \<Rightarrow> if e = FileExistsError then Inr fs else Inl e
                  | Inr fs' \<Rightarrow> Inr fs')
            else Inr fs)"
  from "1.prems" obtain fs1 where r1: "fs1r = Inr fs1"
    and r2: "(case mkdir fs1 name of
             Inr fs2 \<Rightarrow> Inr fs2
           | Inl e \<Rightarrow> if \<not> exist_ok \<or> \<not> path_isdir fs1 name then Inl e else Inr fs1) = Inr fs'"
    by (subst (asm) makedirs.simps) (auto simp: fs1r_def [symmetric] split: sum.splits)
  have step1: "\<forall>q. fs1 q = fs q \<or> (fs q = None \<and> fs1 q = Some Dir \<and> prefix q name)"
  proof (cases "name \<noteq> [] \<and> \<not> path_exists fs (butlast name)")
    case False
    then have "fs1 = fs" using r1 by (auto simp: fs1r_def)
    then show ?thesis by simp
  next
    case True
    show ?thesis
    proof (cases "makedirs fs (butlast name) exist_ok")
      case (Inl e)
      then have "fs1 = fs" using r1 True by (auto simp: fs1r_def split: if_splits)
      then show ?thesis by simp
    next
      case (Inr fsh)
      then have eq: "fs1 = fsh" using r1 True by (auto simp: fs1r_def)
      have "\<forall>q. fsh q = fs q \<or> (fs q = None \<and> fsh q = Some Dir \<and> prefix q (butlast name))"
        using "1.IH" [OF True Inr] by simp
      moreover have "prefix q (butlast name) \<Longrightarrow> prefix q name" for q
        by (metis prefix_order.order_trans prefixeq_butlast)
      ultimately show ?thesis unfolding eq by blast
    qed
  qed
  have step2: "path_isdir fs' name \<and>
    (\<forall>q. fs' q = fs1 q \<or> (fs1 q = None \<and> fs' q = Some Dir \<and> prefix q name))"
  proof (cases "mkdir fs1 name")
    case (Inr fs2)
    then have "fs' = fs2" using r2 by simp
    with mkdir_Inr [OF Inr] show ?thesis
      by (auto simp: path_isdir_def node_at_def)
  next
    case (Inl e)
    then have "fs' = fs1" "path_isdir fs1 name" using r2 by (auto split: if_splits)
    then show ?thesis by simp
  qed
  show ?case
  proof (intro conjI allI)
    show "path_isdir fs' name" using step2 by simp
    fix q
    show "fs' q = fs q \<or> (fs q = None \<and> fs' q = Some Dir \<and> prefix q name)"
      using step1 [rule_format, of q] step2 [THEN conjunct2, rule_format, of q] by auto
  qed
qed

lemma makedirs_keeps:
  "makedirs fs name exist_ok = Inr fs' \<Longrightarrow> fs q \<noteq> None \<Longrightarrow> fs' q = fs q"
  using makedirs_effect [of fs name exist_ok fs'] by auto

lemma makedirs_outside:
  "makedirs fs name exist_ok = Inr fs' \<Longrightarrow> \<not> prefix q name \<Longrightarrow> fs' q = fs q"
  using makedirs_effect [of fs name exist_ok fs'] by auto

lemma makedirs_isdir:
  "makedirs fs name exist_ok = Inr fs' \<Longrightarrow> path_isdir fs' name"
  using makedirs_effect [of fs name exist_ok fs'] by auto

lemma makedirs_keeps_isdir:
  "makedirs fs name exist_ok = Inr fs' \<Longrightarrow> path_isdir fs q \<Longrightarrow> path_isdir fs' q"
  using makedirs_keeps [of fs name exist_ok fs' q]
  by (auto simp: path_isdir_def node_at_def split: if_splits)

lemma makedirs_keeps_exists:
  "makedirs fs name exist_ok = Inr fs' \<Longrightarrow> path_exists fs q \<Longrightarrow> path_exists fs' q"
  using makedirs_keeps [of fs name exist_ok fs' q]
  by (auto simp: path_exists_def node_at_def split: if_splits)

lemma rmtree_Inr:
  "rmtree fs p = Inr fs' \<Longrightarrow> p \<noteq> [] \<and> fs' = (\<lambda>q. if prefix p q then None else fs q)"
  by (auto simp: rmtree_def split: if_splits option.splits node.splits)


lemma prepare_dirs_Inr:
  assumes "prepare_dirs resolve fs datadir (Some logdir) = Inr fs'"
  obtains fs1 fs2 where
    "makedirs fs (resolve datadir) True = Inr fs1"
    "if path_exists fs1 (resolve logdir) then rmtree fs1 (resolve logdir) = Inr fs2 else fs2 = fs1"
    "makedirs fs2 (resolve logdir) False = Inr fs'"
  using assms by (auto simp: prepare_dirs_def split: sum.splits if_splits)

text \<open>
  Claim C9, amended. When \<^verbatim>\<open>download_to\<close> gets through its first lines without an
  exception: a log directory that existed before is a directory afterwards and nothing is
  below it (it was deleted with all its contents and made again, before the manager is
  built); the data directory is a directory afterwards unless it lies at or below the log
  directory; and every entry at or below the data directory that existed before and does not
  lie at or below the log directory is unchanged.
\<close>

theorem C9_log_directory_emptied_data_kept_outside:
  assumes "prepare_dirs resolve fs datadir (Some logdir) = Inr fs'"
  shows "(path_exists fs (resolve logdir) \<longrightarrow>
            fs' (resolve logdir) = Some Dir \<and>
            (\<forall>q. strict_prefix (resolve logdir) q \<longrightarrow> fs' q = None)) \<and>
         (\<not> prefix (resolve logdir) (resolve datadir) \<longrightarrow> path_isdir fs' (resolve datadir)) \<and>
         (\<forall>q. prefix (resolve datadir) q \<and> \<not> prefix (resolve logdir) q \<and> fs q \<noteq> None \<longrightarrow>
              fs' q = fs q)"
proof -
  define D where "D = resolve datadir"
  define L where "L = resolve logdir"
  from assms obtain fs1 fs2 where
    m1: "makedirs fs D True = Inr fs1" and
    rm: "if path_exists fs1 L then rmtree fs1 L = Inr fs2 else fs2 = fs1" and
    m2: "makedirs fs2 L False = Inr fs'"
    unfolding D_def L_def by (rule prepare_dirs_Inr)
  have fs2: "fs2 q = (if path_exists fs1 L \<and> prefix L q then None else fs1 q)" for q
    using rm rmtree_Inr [of fs1 L fs2] by (auto split: if_splits)
  have below: "fs' q = fs2 q" if "strict_prefix L q" for q
  proof -
    have "\<not> prefix q L" using that by (auto simp: strict_prefix_def)
    then show ?thesis by (rule makedirs_outside [OF m2])
  qed
  have a: "fs' L = Some Dir \<and> (\<forall>q. strict_prefix L q \<longrightarrow> fs' q = None)"
    if ex: "path_exists fs L"
  proof -
    have ex1: "path_exists fs1 L" using makedirs_keeps_exists [OF m1 ex] .
    then have r: "rmtree fs1 L = Inr fs2" using rm by simp
    then have ne: "L \<noteq> []" using rmtree_Inr by blast
    have "path_isdir fs' L" by (rule makedirs_isdir [OF m2])
    then have "fs' L = Some Dir" using ne by (simp add: path_isdir_def node_at_def)
    moreover have "fs' q = None" if "strict_prefix L q" for q
      using below [OF that] that ex1 by (simp add: fs2 strict_prefix_def)
    ultimately show ?thesis by blast
  qed
  have b1: "path_isdir fs' D" if "\<not> prefix L D"
  proof -
    have "path_isdir fs1 D" by (rule makedirs_isdir [OF m1])
    then have "path_isdir fs2 D" using that by (auto simp: path_isdir_def node_at_def fs2)
    then show ?thesis by (rule makedirs_keeps_isdir [OF m2])
  qed
  have b2: "fs' q = fs q" if "\<not> prefix L q" "fs q \<noteq> None" for q
  proof -
    have 1: "fs1 q = fs q" by (rule makedirs_keeps [OF m1 that(2)])
    have 2: "fs2 q = fs1 q" using that(1) by (simp add: fs2)
    have "fs' q = fs2 q" by (rule makedirs_keeps [OF m2]) (simp add: 1 2 that(2))
    then show ?thesis by (simp add: 1 2)
  qed
  show ?thesis
    unfolding D_def [symmetric] L_def [symmetric]
    using a b1 b2 by blast
qed


lemma components_examples:
  "components ''out'' = [''out'']"
  "components ''out/logs'' = [''out'', ''logs'']"
  "components ''logs'' = [''logs'']"
  by (simp_all add: components_def)

lemma makedirs_example1: "makedirs example_fs [''out''] True = Inr example_fs"
  by (simp add: makedirs.simps mkdir_def path_exists_def path_isdir_def node_at_def example_fs_def)

lemma makedirs_example2:
  "makedirs (\<lambda>q. if prefix [''out'', ''logs''] q then None else example_fs q) [''out'', ''logs''] False =
   Inr ((\<lambda>q. if prefix [''out'', ''logs''] q then None else example_fs q)([''out'', ''logs''] \<mapsto> Dir))"
  by (simp add: makedirs.simps mkdir_def path_exists_def path_isdir_def node_at_def example_fs_def)

lemma prepare_dirs_example:
  "prepare_dirs components example_fs ''out'' (Some ''out/logs'') =
   Inr ((\<lambda>q. if prefix [''out'', ''logs''] q then None else example_fs q)([''out'', ''logs''] \<mapsto> Dir))"
proof -
  have e: "path_exists example_fs [''out'', ''logs'']"
    by (simp add: path_exists_def node_at_def example_fs_def)
  have r: "rmtree example_fs [''out'', ''logs''] =
           Inr (\<lambda>q. if prefix [''out'', ''logs''] q then None else example_fs q)"
  proof -
    have "node_at example_fs [''out'', ''logs''] = Some Dir"
      by (simp add: node_at_def example_fs_def)
    then show ?thesis by (simp add: rmtree_def)
  qed
  show ?thesis
    by (simp add: prepare_dirs_def components_examples makedirs_example1 e r makedirs_example2)
qed

text \<open>
  Claim C9 as stated fails when the log directory lies inside the data directory: with data
  directory \<^verbatim>\<open>out\<close> and log directory \<^verbatim>\<open>out/logs\<close>, the file
  \<^verbatim>\<open>out/logs/old.log\<close> is an existing content of the data directory, and it is gone
  afterwards.
\<close>

theorem C9_data_inside_log_counterexample:
  "prefix (components ''out'') [''out'', ''logs'', ''old.log''] \<and>
   example_fs [''out'', ''logs'', ''old.log''] = Some File \<and>
   map_sum id (\<lambda>fs'. fs' [''out'', ''logs'', ''old.log''])
     (prepare_dirs components example_fs ''out'' (Some ''out/logs'')) = Inr None"
  by (simp add: prepare_dirs_example components_examples) (simp add: example_fs_def)

theorem C9_witness:
  "prepare_dirs components example_fs ''out'' (Some ''out/logs'') =
     Inr ((\<lambda>q. if prefix [''out'', ''logs''] q then None else example_fs q)([''out'', ''logs''] \<mapsto> Dir)) \<and>
   path_exists example_fs (components ''out/logs'') \<and>
   \<not> prefix (components ''out/logs'') (components ''out'') \<and>
   prefix (components ''out'') [''out'', ''SRR1'', ''reads.gz''] \<and>
   \<not> prefix (components ''out/logs'') [''out'', ''SRR1'', ''reads.gz''] \<and>
   example_fs [''out'', ''SRR1'', ''reads.gz''] \<noteq> None \<and>
   strict_prefix (components ''out/logs'') [''out'', ''logs'', ''old.log''] \<and>
   ((\<lambda>q. if prefix [''out'', ''logs''] q then None else example_fs q)([''out'', ''logs''] \<mapsto> Dir))
      [''out'', ''SRR1'', ''reads.gz''] = Some File \<and>
   ((\<lambda>q. if prefix [''out'', ''logs''] q then None else example_fs q)([''out'', ''logs''] \<mapsto> Dir))
      [''out'', ''logs'', ''old.log''] = None"
  using C9_log_directory_emptied_data_kept_outside [OF prepare_dirs_example]
  by (simp add: prepare_dirs_example components_examples path_exists_def node_at_def)
     (simp add: example_fs_def)

section \<open>Properties of NCBI.jobs_from_accessions\<close>

lemma ncbi_batch_Inr:
  assumes "ncbi_batch resolve self accessions dest_dir idx w = Inr (batch, w')"
  shows "batch = [length (heap w), length (heap w) + 1, length (heap w) + 2, length (heap w) + 3]"
    and "heap w' = heap w @ ncbi_batch_jobs self dest_dir (take 5 (drop idx accessions))
                              (ncbi_joib_id w) (length (heap w))"
    and "ncbi_joib_id w' = Suc (ncbi_joib_id w)"
    and "makedirs (files w) (resolve (ncbi_tmp_dir self (ncbi_joib_id w))) True = Inr (files w')"
  using assms
  by (auto simp: ncbi_batch_def Let_def CmdLineJob_def FunctionJob_def ncbi_batch_jobs_def
        split: sum.splits)

lemma length_ncbi_batch_jobs: "length (ncbi_batch_jobs self dest_dir acc_slice i base) = 4"
  by (simp add: ncbi_batch_jobs_def)

lemma length_ncbi_expected: "length (ncbi_expected bs i base) = 4 * length bs"
  by (induction bs i base rule: ncbi_expected.induct) (simp_all add: ncbi_batch_jobs_def)

lemma ncbi_expected_append:
  "ncbi_expected (bs @ cs) i base =
     ncbi_expected bs i base @ ncbi_expected cs (i + length bs) (base + 4 * length bs)"
  by (induction bs i base rule: ncbi_expected.induct) (simp_all add: add.assoc)

lemma upt_4: "[n..<n + 4 + m] = [n, n + 1, n + 2, n + 3] @ [n + 4..<n + 4 + m]"
proof -
  have "[n..<n + 4 + m] = [n..<n + 4] @ [n + 4..<n + 4 + m]"
    by (rule upt_add_eq_append) simp
  moreover have "[n..<n + 4] = [n, n + 1, n + 2, n + 3]"
    by (simp add: upt_conv_Cons)
  ultimately show ?thesis by simp
qed

lemma nth_ncbi_expected:
  "k < length bs \<Longrightarrow> j < 4 \<Longrightarrow>
   ncbi_expected bs i base ! (4 * k + j) =
     (case bs ! k of (self, dest_dir, acc_slice) \<Rightarrow>
        ncbi_batch_jobs self dest_dir acc_slice (i + k) (base + 4 * k) ! j)"
proof (induction bs i base arbitrary: k rule: ncbi_expected.induct)
  case (1 i base)
  then show ?case by simp
next
  case (2 self dest_dir acc_slice bs i base)
  have len: "length (ncbi_batch_jobs self dest_dir acc_slice i base) = 4"
    by (simp add: ncbi_batch_jobs_def)
  show ?case
  proof (cases k)
    case 0
    then show ?thesis using "2.prems" by (simp add: nth_append len)
  next
    case (Suc k')
    then have "4 * k + j = 4 + (4 * k' + j)" by simp
    then have "ncbi_expected ((self, dest_dir, acc_slice) # bs) i base ! (4 * k + j) =
               ncbi_expected bs (Suc i) (base + 4) ! (4 * k' + j)"
      by (simp add: nth_append len)
    also have "\<dots> = (case bs ! k' of (self, dest_dir, acc_slice) \<Rightarrow>
        ncbi_batch_jobs self dest_dir acc_slice (Suc i + k') (base + 4 + 4 * k') ! j)"
      using "2.prems" Suc by (intro "2.IH") simp_all
    finally show ?thesis using Suc by (simp add: add.assoc)
  qed
qed

lemma ncbi_loop_shape:
  "ncbi_loop resolve self accessions dest_dir idxs all_jobs w = Inr (all_jobs', w') \<Longrightarrow>
   all_jobs' = all_jobs @ [length (heap w)..<length (heap w) + 4 * length idxs] \<and>
   heap w' = heap w @ ncbi_expected (map (\<lambda>idx. (self, dest_dir, take 5 (drop idx accessions))) idxs)
                        (ncbi_joib_id w) (length (heap w)) \<and>
   ncbi_joib_id w' = ncbi_joib_id w + length idxs"
proof (induction idxs arbitrary: all_jobs w)
  case Nil
  then show ?case by simp
next
  case (Cons idx idxs)
  from Cons.prems obtain batch w1 where
    b: "ncbi_batch resolve self accessions dest_dir idx w = Inr (batch, w1)" and
    l: "ncbi_loop resolve self accessions dest_dir idxs (all_jobs @ batch) w1 = Inr (all_jobs', w')"
    by (auto split: sum.splits)
  note bs = ncbi_batch_Inr [OF b]
  have len1: "length (heap w1) = length (heap w) + 4"
    by (simp add: bs(2) ncbi_batch_jobs_def)
  have upt: "[length (heap w)..<length (heap w) + 4 * length (idx # idxs)] =
        batch @ [length (heap w1)..<length (heap w1) + 4 * length idxs]"
    unfolding bs(1) len1
    using upt_4 [of "length (heap w)" "4 * length idxs"] by (simp add: add.assoc)
  from Cons.IH [OF l] have
    1: "all_jobs' = (all_jobs @ batch) @ [length (heap w1)..<length (heap w1) + 4 * length idxs]" and
    2: "heap w' = heap w1 @ ncbi_expected (map (\<lambda>idx. (self, dest_dir, take 5 (drop idx accessions))) idxs)
                        (ncbi_joib_id w1) (length (heap w1))" and
    3: "ncbi_joib_id w' = ncbi_joib_id w1 + length idxs"
    by simp_all
  show ?case
    unfolding 1 2 3 upt unfolding len1 bs(2) bs(3) by (simp add: length_ncbi_batch_jobs)
qed

lemma length_py_range_5: "length (py_range 0 n 5) = (n + 4) div 5"
  by (simp add: py_range_def)

lemma nth_py_range_5: "b < (n + 4) div 5 \<Longrightarrow> py_range 0 n 5 ! b = 5 * b"
  by (simp add: py_range_def)

lemma ncbi_jobs_from_accessions_shape:
  assumes "ncbi_jobs_from_accessions resolve self accessions dest_dir w = Inr (all_jobs, w')"
  shows "all_jobs = [length (heap w)..<length (heap w) + 4 * ((length accessions + 4) div 5)]"
    and "heap w' = heap w @
           ncbi_expected (map (\<lambda>idx. (self, dest_dir, take 5 (drop idx accessions)))
                              (py_range 0 (length accessions) 5))
             (ncbi_joib_id w) (length (heap w))"
    and "ncbi_joib_id w' = ncbi_joib_id w + (length accessions + 4) div 5"
  using ncbi_loop_shape [of resolve self accessions dest_dir "py_range 0 (length accessions) 5" "[]" w all_jobs w']
    assms
  by (simp_all add: ncbi_jobs_from_accessions_def length_py_range_5)

lemma ncbi_job_at:
  assumes "ncbi_jobs_from_accessions resolve self accessions dest_dir w = Inr (all_jobs, w')"
    and "b < (length accessions + 4) div 5" and "j < 4"
  shows "all_jobs ! (4 * b + j) = length (heap w) + 4 * b + j"
    and "heap w' ! (length (heap w) + 4 * b + j) =
           ncbi_batch_jobs self dest_dir (take 5 (drop (5 * b) accessions))
             (ncbi_joib_id w + b) (length (heap w) + 4 * b) ! j"
proof -
  note sh = ncbi_jobs_from_accessions_shape [OF assms(1)]
  have lt: "4 * b + j < 4 * ((length accessions + 4) div 5)" using assms(2,3) by simp
  show "all_jobs ! (4 * b + j) = length (heap w) + 4 * b + j"
    unfolding sh(1) using lt by (simp add: add.assoc)
  have "heap w' ! (length (heap w) + (4 * b + j)) =
        ncbi_expected (map (\<lambda>idx. (self, dest_dir, take 5 (drop idx accessions)))
                              (py_range 0 (length accessions) 5))
             (ncbi_joib_id w) (length (heap w)) ! (4 * b + j)"
    unfolding sh(2) by simp
  also have "\<dots> = ncbi_batch_jobs self dest_dir (take 5 (drop (5 * b) accessions))
             (ncbi_joib_id w + b) (length (heap w) + 4 * b) ! j"
    using assms(2,3)
    by (subst nth_ncbi_expected) (simp_all add: length_py_range_5 nth_py_range_5)
  finally show "heap w' ! (length (heap w) + 4 * b + j) =
           ncbi_batch_jobs self dest_dir (take 5 (drop (5 * b) accessions))
             (ncbi_joib_id w + b) (length (heap w) + 4 * b) ! j"
    by (simp add: add.assoc)
qed

lemma digit_char_inj:
  assumes "a < 10" "b < 10" "digit_char a = digit_char b"
  shows "a = b"
proof -
  have d: "distinct ''0123456789''" by simp
  have "length ''0123456789'' = 10" by simp
  with assms d show ?thesis
    unfolding digit_char_def by (metis nth_eq_iff_index_eq)
qed

lemma str_nat_nonempty: "str_nat n \<noteq> []"
  by (subst str_nat.simps) simp

lemma str_nat_inj: "str_nat n = str_nat m \<Longrightarrow> n = m"
proof (induction n arbitrary: m rule: str_nat.induct)
  case (1 n)
  show ?case
  proof (cases "n < 10")
    case True
    show ?thesis
    proof (cases "m < 10")
      case m: True
      from "1.prems" have "digit_char n = digit_char m"
        using True m by (simp add: str_nat.simps)
      then show ?thesis using True m by (rule digit_char_inj [rotated 2])
    next
      case False
      from "1.prems" have "[digit_char n] = str_nat (m div 10) @ [digit_char (m mod 10)]"
        using True False by (simp add: str_nat.simps [of n] str_nat.simps [of m])
      then show ?thesis using str_nat_nonempty [of "m div 10"] by simp
    qed
  next
    case False
    show ?thesis
    proof (cases "m < 10")
      case True
      from "1.prems" have "str_nat (n div 10) @ [digit_char (n mod 10)] = [digit_char m]"
        using True False by (simp add: str_nat.simps [of n] str_nat.simps [of m])
      then show ?thesis using str_nat_nonempty [of "n div 10"] by simp
    next
      case m: False
      from "1.prems" have "str_nat (n div 10) @ [digit_char (n mod 10)] =
                           str_nat (m div 10) @ [digit_char (m mod 10)]"
        using m False by (simp add: str_nat.simps [of n] str_nat.simps [of m])
      then have a: "str_nat (n div 10) = str_nat (m div 10)"
        and b: "digit_char (n mod 10) = digit_char (m mod 10)" by simp_all
      have "n div 10 = m div 10" using "1.IH" [OF False a] .
      moreover have "n mod 10 = m mod 10"
        by (rule digit_char_inj [OF _ _ b]) simp_all
      ultimately show ?thesis by (metis div_mult_mod_eq)
    qed
  qed
qed

lemma ncbi_job_name_inj: "ncbi_job_name i = ncbi_job_name j \<Longrightarrow> i = j"
  by (simp add: ncbi_job_name_def str_nat_inj)

lemma path_join_relative:
  "b \<noteq> [] \<Longrightarrow> hd b \<noteq> CHR ''/'' \<Longrightarrow>
   path_join a b = (if a = [] \<or> last a = CHR ''/'' then a else a @ ''/'') @ b"
  by (simp add: path_join_def)

lemma digit_char_not_underscore: "d < 10 \<Longrightarrow> digit_char d \<noteq> CHR ''_''"
proof -
  assume "d < 10"
  then have "digit_char d \<in> set ''0123456789''"
    unfolding digit_char_def by (intro nth_mem) simp
  then show ?thesis by auto
qed

lemma str_nat_no_underscore: "CHR ''_'' \<notin> set (str_nat n)"
proof (induction n rule: str_nat.induct)
  case (1 n)
  show ?case
  proof (cases "n < 10")
    case True
    then show ?thesis using digit_char_not_underscore [of n] by (subst str_nat.simps) auto
  next
    case False
    have "n mod 10 < 10" by simp
    then have "digit_char (n mod 10) \<noteq> CHR ''_''" by (rule digit_char_not_underscore)
    then show ?thesis using "1.IH" [OF False] False by (subst str_nat.simps) auto
  qed
qed

lemma after_last_underscore:
  assumes "CHR ''_'' \<notin> set d1" "CHR ''_'' \<notin> set d2" "a @ CHR ''_'' # d1 = b @ CHR ''_'' # d2"
  shows "d1 = d2"
proof -
  have "takeWhile (\<lambda>c. c \<noteq> CHR ''_'') (rev (a @ CHR ''_'' # d)) = rev d"
    if "CHR ''_'' \<notin> set d" for a d
  proof -
    have "takeWhile (\<lambda>c. c \<noteq> CHR ''_'') (rev d @ CHR ''_'' # rev a) =
          rev d @ takeWhile (\<lambda>c. c \<noteq> CHR ''_'') (CHR ''_'' # rev a)"
      by (rule takeWhile_append2) (use that in auto)
    then show ?thesis by simp
  qed
  from this [OF assms(1), of a] this [OF assms(2), of b] assms(3) show ?thesis by simp
qed

lemma ncbi_tmp_dir_form:
  "\<exists>a. ncbi_tmp_dir self i = a @ CHR ''_'' # str_nat i"
proof -
  have "ncbi_tmp_dir self i =
        ((if self_tmp_dir self = [] \<or> last (self_tmp_dir self) = CHR ''/''
          then self_tmp_dir self else self_tmp_dir self @ ''/'') @ ''ncbi'') @ CHR ''_'' # str_nat i"
    by (simp add: ncbi_tmp_dir_def path_join_def)
  then show ?thesis by blast
qed

lemma ncbi_tmp_dir_inj_any: "ncbi_tmp_dir self i = ncbi_tmp_dir self' j \<Longrightarrow> i = j"
proof -
  assume eq: "ncbi_tmp_dir self i = ncbi_tmp_dir self' j"
  obtain a where a: "ncbi_tmp_dir self i = a @ CHR ''_'' # str_nat i"
    using ncbi_tmp_dir_form by blast
  obtain b where b: "ncbi_tmp_dir self' j = b @ CHR ''_'' # str_nat j"
    using ncbi_tmp_dir_form by blast
  have "str_nat i = str_nat j"
    using after_last_underscore [OF str_nat_no_underscore str_nat_no_underscore] eq a b by metis
  then show "i = j" by (rule str_nat_inj)
qed

lemma concat_chunks: "concat (map (\<lambda>b. take k (drop (k * b) xs)) [0..<n]) = take (k * n) xs"
proof (induction n)
  case 0
  show ?case by simp
next
  case (Suc n)
  have "take (k * Suc n) xs = take (k * n) xs @ take k (drop (k * n) xs)"
    using take_add [of "k * n" k xs] by (simp add: add.commute)
  with Suc show ?case by simp
qed

lemma chunks_cover:
  "concat (map (\<lambda>b. take 5 (drop (5 * b) xs)) [0..<(length xs + 4) div 5]) = xs"
  by (simp add: concat_chunks)

lemma ncbi_parent_less:
  assumes run: "ncbi_jobs_from_accessions resolve self accessions dest_dir w = Inr (all_jobs, w')"
    and c: "c \<in> set all_jobs" and p: "Some p \<in> set (job_parents (heap w' ! c))"
  shows "p < c"
proof -
  define n where "n = length (heap w)"
  define nb where "nb = (length accessions + 4) div 5"
  have "all_jobs = [n..<n + 4 * nb]"
    unfolding n_def nb_def by (rule ncbi_jobs_from_accessions_shape(1) [OF run])
  with c have c1: "n \<le> c" "c < n + 4 * nb" by simp_all
  define b where "b = (c - n) div 4"
  define j where "j = (c - n) mod 4"
  have b: "b < nb" using c1 unfolding b_def by (simp add: less_mult_imp_div_less mult.commute)
  have j: "j < 4" unfolding j_def by simp
  have c2: "c = n + 4 * b + j" using c1 unfolding b_def j_def by simp
  have at: "heap w' ! c = ncbi_batch_jobs self dest_dir (take 5 (drop (5 * b) accessions))
             (ncbi_joib_id w + b) (n + 4 * b) ! j"
    unfolding c2 n_def nb_def
    by (rule ncbi_job_at(2) [OF run]) (use b j in \<open>simp_all add: nb_def\<close>)
  have p': "Some p \<in> set (job_parents (ncbi_batch_jobs self dest_dir
             (take 5 (drop (5 * b) accessions)) (ncbi_joib_id w + b) (n + 4 * b) ! j))"
    using p at by simp
  from j consider "j = 0" | "j = 1" | "j = 2" | "j = 3" by linarith
  then show ?thesis
    using p' unfolding c2 by cases (simp_all add: ncbi_batch_jobs_def)
qed

text \<open>
  Claim C4. When \<^verbatim>\<open>NCBI.jobs_from_accessions\<close> returns, it returns four jobs for each
  batch of at most five accessions (the batches cut the list of accessions into consecutive
  slices of five). The four jobs of a batch are new, distinct jobs: a download command with
  no parent and the gate \<^verbatim>\<open>ncbi_delay_ready\<close>; an unzip command whose parents are exactly
  the download job, without gate; a rehydrate command whose parents are exactly the unzip
  job, with the gate \<^verbatim>\<open>ncbi_delay_ready\<close>; and the callable \<^verbatim>\<open>clean\<close> whose parents are
  exactly the rehydrate job, without gate. The parent links of the returned jobs have no
  cycle.
\<close>

theorem C4_ncbi_four_job_chains:
  assumes "ncbi_jobs_from_accessions resolve self accessions dest_dir w = Inr (all_jobs, w')"
  shows "length all_jobs = 4 * ((length accessions + 4) div 5) \<and>
    concat (map (\<lambda>b. take 5 (drop (5 * b) accessions)) [0..<(length accessions + 4) div 5]) =
      accessions \<and>
    (\<forall>b < (length accessions + 4) div 5.
       let download_job = all_jobs ! (4 * b);
           unzip_job = all_jobs ! (4 * b + 1);
           rehydrate_job = all_jobs ! (4 * b + 2);
           reorg_job = all_jobs ! (4 * b + 3);
           acc_slice = take 5 (drop (5 * b) accessions);
           tmp = ncbi_tmp_dir self (ncbi_joib_id w + b);
           name = ncbi_job_name (ncbi_joib_id w + b)
       in length (heap w) \<le> download_job \<and> download_job < unzip_job \<and>
          unzip_job < rehydrate_job \<and> rehydrate_job < reorg_job \<and>
          reorg_job < length (heap w') \<and>
          heap w' ! download_job =
            \<lparr>job_payload = CmdLine (fmt_opt (self_bin self)
                 @ '' download genome accession --dehydrated --filename ''
                 @ path_join tmp (name @ ''.zip'') @ '' '' @ join_sep '' '' acc_slice),
             job_parents = [], job_can_start = Some Ncbi_delay_ready, job_label = None\<rparr> \<and>
          heap w' ! unzip_job =
            \<lparr>job_payload = CmdLine (''unzip '' @ path_join tmp (name @ ''.zip'') @ '' -d ''
                 @ path_join tmp name),
             job_parents = [Some download_job], job_can_start = None, job_label = None\<rparr> \<and>
          heap w' ! rehydrate_job =
            \<lparr>job_payload = CmdLine (fmt_opt (self_bin self)
                 @ '' rehydrate --gzip --no-progressbar --directory '' @ path_join tmp name),
             job_parents = [Some unzip_job], job_can_start = Some Ncbi_delay_ready,
             job_label = None\<rparr> \<and>
          heap w' ! reorg_job =
            \<lparr>job_payload = Function Ncbi_clean [path_join tmp name, dest_dir, tmp],
             job_parents = [Some rehydrate_job], job_can_start = None, job_label = None\<rparr>) \<and>
    acyclic {(p, c). c \<in> set all_jobs \<and> Some p \<in> set (job_parents (heap w' ! c))}"
proof (intro conjI allI impI)
  note sh = ncbi_jobs_from_accessions_shape [OF assms]
  show "length all_jobs = 4 * ((length accessions + 4) div 5)"
    unfolding sh(1) by simp
  show "concat (map (\<lambda>b. take 5 (drop (5 * b) accessions)) [0..<(length accessions + 4) div 5]) =
      accessions"
    by (rule chunks_cover)
  have "{(p, c). c \<in> set all_jobs \<and> Some p \<in> set (job_parents (heap w' ! c))} \<subseteq> less_than"
    using ncbi_parent_less [OF assms] by auto
  then show "acyclic {(p, c). c \<in> set all_jobs \<and> Some p \<in> set (job_parents (heap w' ! c))}"
    by (rule acyclic_subset [OF wf_acyclic [OF wf_less_than]])
next
  fix b assume b: "b < (length accessions + 4) div 5"
  note sh = ncbi_jobs_from_accessions_shape [OF assms]
  have len: "length (heap w') = length (heap w) + 4 * ((length accessions + 4) div 5)"
    unfolding sh(2) by (simp add: length_ncbi_expected length_py_range_5)
  have r: "all_jobs ! (4 * b) = length (heap w) + 4 * b"
       "all_jobs ! (4 * b + 1) = length (heap w) + 4 * b + 1"
       "all_jobs ! (4 * b + 2) = length (heap w) + 4 * b + 2"
       "all_jobs ! (4 * b + 3) = length (heap w) + 4 * b + 3"
    using ncbi_job_at(1) [OF assms b, of 0] ncbi_job_at(1) [OF assms b, of 1]
      ncbi_job_at(1) [OF assms b, of 2] ncbi_job_at(1) [OF assms b, of 3]
    by simp_all
  have h: "heap w' ! (length (heap w) + 4 * b) =
        ncbi_batch_jobs self dest_dir (take 5 (drop (5 * b) accessions))
             (ncbi_joib_id w + b) (length (heap w) + 4 * b) ! 0"
      "heap w' ! (length (heap w) + 4 * b + 1) =
        ncbi_batch_jobs self dest_dir (take 5 (drop (5 * b) accessions))
             (ncbi_joib_id w + b) (length (heap w) + 4 * b) ! 1"
      "heap w' ! (length (heap w) + 4 * b + 2) =
        ncbi_batch_jobs self dest_dir (take 5 (drop (5 * b) accessions))
             (ncbi_joib_id w + b) (length (heap w) + 4 * b) ! 2"
      "heap w' ! (length (heap w) + 4 * b + 3) =
        ncbi_batch_jobs self dest_dir (take 5 (drop (5 * b) accessions))
             (ncbi_joib_id w + b) (length (heap w) + 4 * b) ! 3"
    using ncbi_job_at(2) [OF assms b, of 0] ncbi_job_at(2) [OF assms b, of 1]
      ncbi_job_at(2) [OF assms b, of 2] ncbi_job_at(2) [OF assms b, of 3]
    by simp_all
  have lt: "length (heap w) + 4 * b + 3 < length (heap w')"
    unfolding len using b by simp
  show "let download_job = all_jobs ! (4 * b);
           unzip_job = all_jobs ! (4 * b + 1);
           rehydrate_job = all_jobs ! (4 * b + 2);
           reorg_job = all_jobs ! (4 * b + 3);
           acc_slice = take 5 (drop (5 * b) accessions);
           tmp = ncbi_tmp_dir self (ncbi_joib_id w + b);
           name = ncbi_job_name (ncbi_joib_id w + b)
       in length (heap w) \<le> download_job \<and> download_job < unzip_job \<and>
          unzip_job < rehydrate_job \<and> rehydrate_job < reorg_job \<and>
          reorg_job < length (heap w') \<and>
          heap w' ! download_job =
            \<lparr>job_payload = CmdLine (fmt_opt (self_bin self)
                 @ '' download genome accession --dehydrated --filename ''
                 @ path_join tmp (name @ ''.zip'') @ '' '' @ join_sep '' '' acc_slice),
             job_parents = [], job_can_start = Some Ncbi_delay_ready, job_label = None\<rparr> \<and>
          heap w' ! unzip_job =
            \<lparr>job_payload = CmdLine (''unzip '' @ path_join tmp (name @ ''.zip'') @ '' -d ''
                 @ path_join tmp name),
             job_parents = [Some download_job], job_can_start = None, job_label = None\<rparr> \<and>
          heap w' ! rehydrate_job =
            \<lparr>job_payload = CmdLine (fmt_opt (self_bin self)
                 @ '' rehydrate --gzip --no-progressbar --directory '' @ path_join tmp name),
             job_parents = [Some unzip_job], job_can_start = Some Ncbi_delay_ready,
             job_label = None\<rparr> \<and>
          heap w' ! reorg_job =
            \<lparr>job_payload = Function Ncbi_clean [path_join tmp name, dest_dir, tmp],
             job_parents = [Some rehydrate_job], job_can_start = None, job_label = None\<rparr>"
    unfolding Let_def r h using lt by (simp add: ncbi_batch_jobs_def)
qed

lemma ncbi_calls_shape:
  "ncbi_calls resolve calls w = Inr (returned, w') \<Longrightarrow>
   concat returned = [length (heap w)..<length (heap w) + 4 * length (batches_of calls)] \<and>
   heap w' = heap w @ ncbi_expected (batches_of calls) (ncbi_joib_id w) (length (heap w)) \<and>
   ncbi_joib_id w' = ncbi_joib_id w + length (batches_of calls)"
proof (induction calls arbitrary: w returned)
  case Nil
  then show ?case by (simp add: batches_of_def)
next
  case (Cons call calls)
  obtain self accessions dest_dir where call: "call = (self, accessions, dest_dir)"
    by (cases call)
  from Cons.prems obtain all_jobs w1 rest where
    one: "ncbi_jobs_from_accessions resolve self accessions dest_dir w = Inr (all_jobs, w1)" and
    more: "ncbi_calls resolve calls w1 = Inr (rest, w')" and
    ret: "returned = all_jobs # rest"
    by (auto simp: call split: sum.splits)
  note sh = ncbi_jobs_from_accessions_shape [OF one]
  define bs1 where "bs1 = map (\<lambda>idx. (self, dest_dir, take 5 (drop idx accessions)))
                              (py_range 0 (length accessions) 5)"
  have bo: "batches_of (call # calls) = bs1 @ batches_of calls"
    by (simp add: batches_of_def call bs1_def)
  have l1: "length bs1 = (length accessions + 4) div 5"
    by (simp add: bs1_def length_py_range_5)
  have len1: "length (heap w1) = length (heap w) + 4 * length bs1"
    unfolding sh(2) by (simp add: length_ncbi_expected bs1_def)
  from Cons.IH [OF more] have
    1: "concat rest = [length (heap w1)..<length (heap w1) + 4 * length (batches_of calls)]" and
    2: "heap w' = heap w1 @ ncbi_expected (batches_of calls) (ncbi_joib_id w1) (length (heap w1))" and
    3: "ncbi_joib_id w' = ncbi_joib_id w1 + length (batches_of calls)"
    by simp_all
  have a: "concat returned = [length (heap w)..<length (heap w) + 4 * length (batches_of (call # calls))]"
    unfolding ret bo using upt_add_eq_append [of "length (heap w)" "length (heap w) + 4 * length bs1"
        "4 * length (batches_of calls)"]
    by (simp add: 1 sh(1) len1 l1 [symmetric] add.assoc add_mult_distrib2)
  have b: "heap w' = heap w @ ncbi_expected (batches_of (call # calls)) (ncbi_joib_id w) (length (heap w))"
    unfolding bo ncbi_expected_append 2 len1
    by (simp add: sh(2) sh(3) bs1_def [symmetric] l1)
  have c: "ncbi_joib_id w' = ncbi_joib_id w + length (batches_of (call # calls))"
    unfolding bo 3 sh(3) by (simp add: l1)
  from a b c show ?case by blast
qed

text \<open>
  Claim C6, amended. In calls of \<^verbatim>\<open>jobs_from_accessions\<close> that run one after the other,
  the batches receive, in the order of their creation, the identifiers \<open>c\<close>, \<open>c + 1\<close>,
  \<open>c + 2\<close>, ... from the value \<open>c\<close> of the counter before the first call: each is strictly
  larger than all given before, in the same call or in an earlier one. The job name and the
  temporary directory of a batch are built from its identifier, and different identifiers
  give different job names and different directory names, whatever the instances.
\<close>

theorem C6_sequential_calls_increasing_ids:
  assumes "ncbi_calls resolve calls w = Inr (returned, w')"
  shows "ncbi_joib_id w' = ncbi_joib_id w + length (batches_of calls) \<and>
    length (concat returned) = 4 * length (batches_of calls) \<and>
    (\<forall>k < length (batches_of calls).
       case batches_of calls ! k of (self, dest_dir, acc_slice) \<Rightarrow>
         let tmp = ncbi_tmp_dir self (ncbi_joib_id w + k);
             name = ncbi_job_name (ncbi_joib_id w + k)
         in job_payload (heap w' ! (concat returned ! (4 * k))) =
              CmdLine (fmt_opt (self_bin self)
                 @ '' download genome accession --dehydrated --filename ''
                 @ path_join tmp (name @ ''.zip'') @ '' '' @ join_sep '' '' acc_slice) \<and>
            job_payload (heap w' ! (concat returned ! (4 * k + 3))) =
              Function Ncbi_clean [path_join tmp name, dest_dir, tmp]) \<and>
    (\<forall>i j. i \<noteq> j \<longrightarrow> ncbi_job_name i \<noteq> ncbi_job_name j) \<and>
    (\<forall>self self' i j. i \<noteq> j \<longrightarrow> ncbi_tmp_dir self i \<noteq> ncbi_tmp_dir self' j)"
proof (intro conjI allI impI)
  note sh = ncbi_calls_shape [OF assms]
  show "ncbi_joib_id w' = ncbi_joib_id w + length (batches_of calls)" using sh by simp
  show "length (concat returned) = 4 * length (batches_of calls)" using sh by simp
  show "ncbi_job_name i \<noteq> ncbi_job_name j" if "i \<noteq> j" for i j
    using that ncbi_job_name_inj by blast
  show "ncbi_tmp_dir self i \<noteq> ncbi_tmp_dir self' j" if "i \<noteq> j" for self self' i j
    using that ncbi_tmp_dir_inj_any by blast
next
  fix k assume k: "k < length (batches_of calls)"
  note sh = ncbi_calls_shape [OF assms]
  obtain self dest_dir acc_slice where bk: "batches_of calls ! k = (self, dest_dir, acc_slice)"
    by (cases "batches_of calls ! k")
  have r: "concat returned ! (4 * k + j) = length (heap w) + (4 * k + j)" if "j < 4" for j
    using sh k that by simp
  have h: "heap w' ! (length (heap w) + (4 * k + j)) =
       ncbi_batch_jobs self dest_dir acc_slice (ncbi_joib_id w + k) (length (heap w) + 4 * k) ! j"
    if "j < 4" for j
    using sh nth_ncbi_expected [OF k that, of "ncbi_joib_id w" "length (heap w)"]
    by (simp add: bk)
  show "case batches_of calls ! k of (self, dest_dir, acc_slice) \<Rightarrow>
         let tmp = ncbi_tmp_dir self (ncbi_joib_id w + k);
             name = ncbi_job_name (ncbi_joib_id w + k)
         in job_payload (heap w' ! (concat returned ! (4 * k))) =
              CmdLine (fmt_opt (self_bin self)
                 @ '' download genome accession --dehydrated --filename ''
                 @ path_join tmp (name @ ''.zip'') @ '' '' @ join_sep '' '' acc_slice) \<and>
            job_payload (heap w' ! (concat returned ! (4 * k + 3))) =
              Function Ncbi_clean [path_join tmp name, dest_dir, tmp]"
    using r [of 0] r [of 3] h [of 0] h [of 3]
    by (simp add: bk Let_def ncbi_batch_jobs_def)
qed

text \<open>
  Claim C6 as stated fails: the counter is not safe for threads. When two threads run lines
  49 to 53 with their statements alternating, both read the counter before either
  increments it, and the two batches get the same job name and the same temporary
  directory.
\<close>

theorem C6_interleaved_threads_counterexample:
  "interleave example_ncbi [0, 1, 0, 1, 0, 1] (0, [thread_start, thread_start]) =
     (2, [\<lparr>pc = Past_increment, thread_tmp_dir = Some ''/tmp/ncbi_0'',
            thread_job_name = Some ''ncbi_job_0''\<rparr>,
          \<lparr>pc = Past_increment, thread_tmp_dir = Some ''/tmp/ncbi_0'',
            thread_job_name = Some ''ncbi_job_0''\<rparr>])"
  by (simp add: thread_step_def thread_start_def example_ncbi_def ncbi_tmp_dir_def
        ncbi_job_name_def path_join_def str_nat.simps digit_char_def)

lemma example_ncbi_run_ok: "\<not> isl example_ncbi_run"
  unfolding example_ncbi_run_def by code_simp

lemma example_ncbi_calls_ok: "\<not> isl example_ncbi_calls"
  unfolding example_ncbi_calls_def by code_simp

theorem C4_witness:
  "\<not> isl example_ncbi_run \<and>
   length (fst (projr example_ncbi_run)) = 8 \<and>
   job_parents (heap (snd (projr example_ncbi_run)) ! (fst (projr example_ncbi_run) ! 4)) = [] \<and>
   job_parents (heap (snd (projr example_ncbi_run)) ! (fst (projr example_ncbi_run) ! 5)) =
     [Some (fst (projr example_ncbi_run) ! 4)] \<and>
   job_can_start (heap (snd (projr example_ncbi_run)) ! (fst (projr example_ncbi_run) ! 6)) =
     Some Ncbi_delay_ready \<and>
   job_payload (heap (snd (projr example_ncbi_run)) ! (fst (projr example_ncbi_run) ! 7)) =
     Function Ncbi_clean [''/tmp/ncbi_1/ncbi_job_1'', ''data'', ''/tmp/ncbi_1'']"
proof -
  have run: "ncbi_jobs_from_accessions components example_ncbi
       [''GCA_1'', ''GCA_2'', ''GCA_3'', ''GCA_4'', ''GCA_5'', ''GCA_6''] ''data'' empty_world =
       Inr (fst (projr example_ncbi_run), snd (projr example_ncbi_run))"
    using example_ncbi_run_ok by (simp add: example_ncbi_run_def)
  have names: "ncbi_tmp_dir example_ncbi (Suc 0) = ''/tmp/ncbi_1''"
    "ncbi_job_name (Suc 0) = ''ncbi_job_1''"
    by (simp_all add: ncbi_tmp_dir_def ncbi_job_name_def path_join_def example_ncbi_def
        str_nat.simps digit_char_def)
  have j: "path_join ''/tmp/ncbi_1'' ''ncbi_job_1'' = ''/tmp/ncbi_1/ncbi_job_1''"
    by (simp add: path_join_def)
  from C4_ncbi_four_job_chains [OF run] have
    "length (fst (projr example_ncbi_run)) = 8" and
    "\<forall>b<2. let download_job = fst (projr example_ncbi_run) ! (4 * b);
           unzip_job = fst (projr example_ncbi_run) ! (4 * b + 1);
           rehydrate_job = fst (projr example_ncbi_run) ! (4 * b + 2);
           reorg_job = fst (projr example_ncbi_run) ! (4 * b + 3)
       in job_parents (heap (snd (projr example_ncbi_run)) ! download_job) = [] \<and>
          job_parents (heap (snd (projr example_ncbi_run)) ! unzip_job) = [Some download_job] \<and>
          job_can_start (heap (snd (projr example_ncbi_run)) ! rehydrate_job) =
            Some Ncbi_delay_ready \<and>
          job_payload (heap (snd (projr example_ncbi_run)) ! reorg_job) =
            Function Ncbi_clean [path_join (ncbi_tmp_dir example_ncbi (b)) (ncbi_job_name (b)),
               ''data'', ncbi_tmp_dir example_ncbi (b)]"
    by (simp_all add: Let_def empty_world_def)
  from this(1) this(2) [rule_format, of 1] show ?thesis
    using example_ncbi_run_ok by (simp add: Let_def names j)
qed

theorem C6_witness:
  "\<not> isl example_ncbi_calls \<and>
   ncbi_joib_id (snd (projr example_ncbi_calls)) = 3 \<and>
   job_payload (heap (snd (projr example_ncbi_calls)) ! (concat (fst (projr example_ncbi_calls)) ! 8)) =
     CmdLine ''datasets download genome accession --dehydrated --filename /tmp/ncbi_2/ncbi_job_2.zip GCA_7''"
proof -
  have run: "ncbi_calls components
       [(example_ncbi, [''GCA_1'', ''GCA_2'', ''GCA_3'', ''GCA_4'', ''GCA_5'', ''GCA_6''], ''data''),
        (example_ncbi, [''GCA_7''], ''data'')] empty_world =
       Inr (fst (projr example_ncbi_calls), snd (projr example_ncbi_calls))"
    using example_ncbi_calls_ok by (simp add: example_ncbi_calls_def)
  have bs: "batches_of
       [(example_ncbi, [''GCA_1'', ''GCA_2'', ''GCA_3'', ''GCA_4'', ''GCA_5'', ''GCA_6''], ''data''),
        (example_ncbi, [''GCA_7''], ''data'')] =
       [(example_ncbi, ''data'', [''GCA_1'', ''GCA_2'', ''GCA_3'', ''GCA_4'', ''GCA_5'']),
        (example_ncbi, ''data'', [''GCA_6'']), (example_ncbi, ''data'', [''GCA_7''])]"
    by (simp add: batches_of_def py_range_def upt_conv_Cons)
  have names: "ncbi_tmp_dir example_ncbi 2 = ''/tmp/ncbi_2''" "ncbi_job_name 2 = ''ncbi_job_2''"
    by (simp_all add: ncbi_tmp_dir_def ncbi_job_name_def path_join_def example_ncbi_def
        str_nat.simps digit_char_def)
  have j: "path_join ''/tmp/ncbi_2'' ''ncbi_job_2.zip'' = ''/tmp/ncbi_2/ncbi_job_2.zip''"
    by (simp add: path_join_def)
  have b: "self_bin example_ncbi = Some ''datasets''" by (simp add: example_ncbi_def)
  from C6_sequential_calls_increasing_ids [OF run] have
    "ncbi_joib_id (snd (projr example_ncbi_calls)) = 3" and
    "\<forall>k<3. case [(example_ncbi, ''data'', [''GCA_1'', ''GCA_2'', ''GCA_3'', ''GCA_4'', ''GCA_5'']),
        (example_ncbi, ''data'', [''GCA_6'']), (example_ncbi, ''data'', [''GCA_7''])] ! k of
       (self, dest_dir, acc_slice) \<Rightarrow>
         job_payload (heap (snd (projr example_ncbi_calls)) !
             (concat (fst (projr example_ncbi_calls)) ! (4 * k))) =
              CmdLine (fmt_opt (self_bin self)
                 @ '' download genome accession --dehydrated --filename ''
                 @ path_join (ncbi_tmp_dir self k) (ncbi_job_name k @ ''.zip'')
                 @ '' '' @ join_sep '' '' acc_slice)"
    by (simp_all add: bs Let_def empty_world_def split_beta)
  from this(1) this(2) [rule_format, of 2] show ?thesis
    using example_ncbi_calls_ok by (simp add: names j b fmt_opt_def)
qed

section \<open>Properties of SRA.jobs_from_accessions\<close>

lemma build_jobs_Inr:
  assumes "build_jobs self acc acc_dir job_name h = Inr (prefetch_job, fasterq_dump_jobs, h')"
  shows "take (length h) h' = h"
    and "length h \<le> length h'"
    and "distinct fasterq_dump_jobs"
    and "\<forall>job \<in> set fasterq_dump_jobs. length h \<le> job \<and> job < length h'"
    and "case prefetch_job of None \<Rightarrow> fasterq_dump_jobs = [] \<and> h' = h
         | Some p \<Rightarrow> length h \<le> p \<and> p < length h' \<and> p \<notin> set fasterq_dump_jobs"
    and "prefetch_job \<noteq> None \<longleftrightarrow> prefix ''SRR'' acc \<or> prefix ''SRX'' acc \<or> prefix ''SRP'' acc"
  using assms
  by (auto simp: build_jobs_def jobs_from_SRR_def jobs_from_SRXP_def CmdLineJob_def
        FunctionJob_def Let_def split: if_splits sum.splits)

lemma length_append_parent [simp]: "length (append_parent jobs parent h) = length h"
  by (induction jobs arbitrary: h) simp_all

lemma nth_append_parent:
  "distinct jobs \<Longrightarrow> \<forall>job \<in> set jobs. job < length h \<Longrightarrow> r < length h \<Longrightarrow>
   append_parent jobs parent h ! r =
     (if r \<in> set jobs then (h ! r)\<lparr>job_parents := job_parents (h ! r) @ [parent]\<rparr> else h ! r)"
proof (induction jobs arbitrary: h)
  case Nil
  then show ?case by simp
next
  case (Cons job jobs)
  let ?h = "h[job := (h ! job)\<lparr>job_parents := job_parents (h ! job) @ [parent]\<rparr>]"
  have "append_parent (job # jobs) parent h ! r = append_parent jobs parent ?h ! r" by simp
  also have "\<dots> = (if r \<in> set jobs then (?h ! r)\<lparr>job_parents := job_parents (?h ! r) @ [parent]\<rparr>
                      else ?h ! r)"
    using Cons.prems by (intro Cons.IH) simp_all
  finally show ?case using Cons.prems by (auto simp: nth_list_update)
qed

lemma take_append_parent:
  "\<forall>job \<in> set jobs. n \<le> job \<Longrightarrow> take n (append_parent jobs parent h) = take n h"
  by (induction jobs arbitrary: h) simp_all

lemma sra_accession_skip:
  "already_downloaded resolve datadir acc w \<Longrightarrow>
   sra_accession resolve self datadir acc (jobs, w) = Inr (jobs, w)"
  by (simp add: sra_accession_def)

lemma sra_accession_Inr:
  assumes "sra_accession resolve self datadir acc (jobs, w) = Inr (jobs', w')"
    and "\<not> already_downloaded resolve datadir acc w"
  obtains prefetch_job fasterq_dump_jobs h where
    "build_jobs self acc (path_join (self_tmpdir self) acc) (''sra_'' @ acc) (heap w) =
       Inr (prefetch_job, fasterq_dump_jobs, h)"
    "jobs' = jobs @ prefetch_job # map Some fasterq_dump_jobs @ [Some (length h)]"
    "heap w' = append_parent fasterq_dump_jobs prefetch_job h @
       [\<lparr>job_payload = Function Sra_move_and_clean [path_join (self_tmpdir self) acc, datadir],
         job_parents = map Some fasterq_dump_jobs, job_can_start = None,
         job_label = Some (''sra_'' @ acc @ ''_clean'')\<rparr>]"
  using assms
  by (auto simp: sra_accession_def Let_def FunctionJob_def split: sum.splits if_splits)

lemma sra_accession_extends:
  assumes "sra_accession resolve self datadir acc (jobs, w) = Inr (jobs', w')"
  shows "prefix jobs jobs' \<and> prefix (heap w) (heap w')"
proof (cases "already_downloaded resolve datadir acc w")
  case True
  then show ?thesis using assms by (simp add: sra_accession_skip)
next
  case False
  from assms False obtain prefetch_job fasterq_dump_jobs h where
    b: "build_jobs self acc (path_join (self_tmpdir self) acc) (''sra_'' @ acc) (heap w) =
       Inr (prefetch_job, fasterq_dump_jobs, h)" and
    j: "jobs' = jobs @ prefetch_job # map Some fasterq_dump_jobs @ [Some (length h)]" and
    h: "heap w' = append_parent fasterq_dump_jobs prefetch_job h @
       [\<lparr>job_payload = Function Sra_move_and_clean [path_join (self_tmpdir self) acc, datadir],
         job_parents = map Some fasterq_dump_jobs, job_can_start = None,
         job_label = Some (''sra_'' @ acc @ ''_clean'')\<rparr>]"
    by (rule sra_accession_Inr)
  note bj = build_jobs_Inr [OF b]
  have "take (length (heap w)) (append_parent fasterq_dump_jobs prefetch_job h) =
        take (length (heap w)) h"
    using bj(4) by (intro take_append_parent) simp
  then have "take (length (heap w)) (append_parent fasterq_dump_jobs prefetch_job h) = heap w"
    using bj(1) by simp
  then have "prefix (heap w) (append_parent fasterq_dump_jobs prefetch_job h)"
    by (metis take_is_prefix)
  then have "prefix (heap w) (heap w')" unfolding h by (rule prefix_prefix)
  then show ?thesis by (simp add: j)
qed

lemma sra_loop_extends:
  "sra_loop resolve self datadir accessions (jobs, w) = Inr (jobs', w') \<Longrightarrow>
   prefix jobs jobs' \<and> prefix (heap w) (heap w')"
proof (induction accessions arbitrary: jobs w)
  case Nil
  then show ?case by simp
next
  case (Cons acc accessions)
  from Cons.prems obtain jobs1 w1 where
    a: "sra_accession resolve self datadir acc (jobs, w) = Inr (jobs1, w1)" and
    l: "sra_loop resolve self datadir accessions (jobs1, w1) = Inr (jobs', w')"
    by (auto split: sum.splits)
  from sra_accession_extends [OF a] Cons.IH [OF l] show ?case
    by (meson prefix_order.order_trans)
qed

lemma prefix_nth: "prefix xs ys \<Longrightarrow> r < length xs \<Longrightarrow> ys ! r = xs ! r"
  by (auto simp: prefix_def nth_append)

lemma sra_loop_append:
  "sra_loop resolve self datadir (xs @ ys) st =
     (case sra_loop resolve self datadir xs st of
        Inl e \<Rightarrow> Inl e
      | Inr st' \<Rightarrow> sra_loop resolve self datadir ys st')"
  by (induction xs arbitrary: st) (simp_all split: sum.splits)

text \<open>
  Claim C7. Take a run of \<^verbatim>\<open>SRA.jobs_from_accessions\<close> that returns, and any accession of
  the list that is processed when the loop reaches it (in the state \<open>w1\<close>, with the list
  \<open>jobs1\<close> built so far); let \<open>prefetch_job\<close> and \<open>fasterq_dump_jobs\<close> be what lines 123
  to 136 construct for it, in the heap \<open>h\<close>. Then in the heap at the return every
  fasterq-dump job of the accession is the job as constructed with the prefetch job
  appended to its parents; the clean job of the accession has exactly the fasterq-dump jobs
  as parents; and the returned list holds, from position \<open>length jobs1\<close>, the prefetch job,
  the fasterq-dump jobs and the clean job. So all parent links are in place when the list is
  returned.
\<close>

theorem C7_sra_parent_links_before_return:
  assumes run: "sra_jobs_from_accessions resolve self accessions datadir w = Inr (jobs, w')"
    and split: "accessions = before @ acc # after"
    and reach: "sra_loop resolve self datadir before ([], w) = Inr (jobs1, w1)"
    and proc: "\<not> already_downloaded resolve datadir acc w1"
    and built: "build_jobs self acc (path_join (self_tmpdir self) acc) (''sra_'' @ acc) (heap w1) =
                  Inr (prefetch_job, fasterq_dump_jobs, h)"
  shows "\<exists>clean_job.
           take (length fasterq_dump_jobs + 2) (drop (length jobs1) jobs) =
             prefetch_job # map Some fasterq_dump_jobs @ [Some clean_job] \<and>
           (\<forall>job \<in> set fasterq_dump_jobs.
              job < length (heap w') \<and>
              heap w' ! job = (h ! job)\<lparr>job_parents := job_parents (h ! job) @ [prefetch_job]\<rparr>) \<and>
           (fasterq_dump_jobs \<noteq> [] \<longrightarrow> (\<exists>p. prefetch_job = Some p \<and> p < length (heap w'))) \<and>
           clean_job < length (heap w') \<and>
           heap w' ! clean_job =
             \<lparr>job_payload = Function Sra_move_and_clean [path_join (self_tmpdir self) acc, datadir],
              job_parents = map Some fasterq_dump_jobs, job_can_start = None,
              job_label = Some (''sra_'' @ acc @ ''_clean'')\<rparr>"
proof -
  from run have "sra_loop resolve self datadir (before @ acc # after) ([], w) = Inr (jobs, w')"
    by (simp add: sra_jobs_from_accessions_def split)
  with reach obtain jobs2 w2 where
    body: "sra_accession resolve self datadir acc (jobs1, w1) = Inr (jobs2, w2)" and
    rest: "sra_loop resolve self datadir after (jobs2, w2) = Inr (jobs, w')"
    by (auto simp: sra_loop_append split: sum.splits)
  from body proc obtain prefetch_job' fasterq_dump_jobs' h' where
    b: "build_jobs self acc (path_join (self_tmpdir self) acc) (''sra_'' @ acc) (heap w1) =
       Inr (prefetch_job', fasterq_dump_jobs', h')" and
    j: "jobs2 = jobs1 @ prefetch_job' # map Some fasterq_dump_jobs' @ [Some (length h')]" and
    hw: "heap w2 = append_parent fasterq_dump_jobs' prefetch_job' h' @
       [\<lparr>job_payload = Function Sra_move_and_clean [path_join (self_tmpdir self) acc, datadir],
         job_parents = map Some fasterq_dump_jobs', job_can_start = None,
         job_label = Some (''sra_'' @ acc @ ''_clean'')\<rparr>]"
    by (rule sra_accession_Inr)
  from b built have same: "prefetch_job' = prefetch_job" "fasterq_dump_jobs' = fasterq_dump_jobs"
    "h' = h" by simp_all
  note j = j [unfolded same] and hw = hw [unfolded same]
  note bj = build_jobs_Inr [OF built]
  from sra_loop_extends [OF rest] have pj: "prefix jobs2 jobs" and ph: "prefix (heap w2) (heap w')"
    by simp_all
  have len2: "length (heap w2) = Suc (length h)" by (simp add: hw)
  have le: "length (heap w2) \<le> length (heap w')" using ph by (rule prefix_length_le)
  from pj obtain more where jobs: "jobs = jobs2 @ more" by (auto simp: prefix_def)
  have seg: "take (length fasterq_dump_jobs + 2) (drop (length jobs1) jobs) =
             prefetch_job # map Some fasterq_dump_jobs @ [Some (length h)]"
    by (simp add: jobs j)
  have fq: "job < length (heap w') \<and>
            heap w' ! job = (h ! job)\<lparr>job_parents := job_parents (h ! job) @ [prefetch_job]\<rparr>"
    if m: "job \<in> set fasterq_dump_jobs" for job
  proof -
    have lt: "job < length h" using bj(4) m by simp
    then have lt2: "job < length (heap w2)" using len2 by simp
    have "heap w' ! job = heap w2 ! job" using ph lt2 by (rule prefix_nth)
    also have "\<dots> = append_parent fasterq_dump_jobs prefetch_job h ! job"
      using lt by (simp add: hw nth_append)
    also have "\<dots> = (h ! job)\<lparr>job_parents := job_parents (h ! job) @ [prefetch_job]\<rparr>"
      using nth_append_parent [OF bj(3) _ lt, of prefetch_job] bj(4) m by simp
    finally show ?thesis using lt2 le by simp
  qed
  have cl: "heap w' ! length h =
             \<lparr>job_payload = Function Sra_move_and_clean [path_join (self_tmpdir self) acc, datadir],
              job_parents = map Some fasterq_dump_jobs, job_can_start = None,
              job_label = Some (''sra_'' @ acc @ ''_clean'')\<rparr>"
  proof -
    have "heap w' ! length h = heap w2 ! length h"
      using ph by (rule prefix_nth) (simp add: len2)
    then show ?thesis by (simp add: hw nth_append)
  qed
  have lh: "length h < length (heap w')" using le len2 by simp
  have pf: "\<exists>p. prefetch_job = Some p \<and> p < length (heap w')" if "fasterq_dump_jobs \<noteq> []"
  proof (cases prefetch_job)
    case None
    then show ?thesis using bj(5) that by simp
  next
    case (Some p)
    then show ?thesis using bj(5) lh by simp
  qed
  from seg fq cl lh pf show ?thesis by blast
qed

lemma sra_loop_all_jobs:
  "sra_loop resolve self datadir accessions (jobs, w) = Inr (jobs', w') \<Longrightarrow>
   \<forall>acc \<in> set (processed resolve self datadir accessions (jobs, w)).
      prefix ''SRR'' acc \<or> prefix ''SRX'' acc \<or> prefix ''SRP'' acc \<Longrightarrow>
   \<forall>j \<in> set jobs. \<exists>r. j = Some r \<and> r < length (heap w) \<Longrightarrow>
   \<forall>j \<in> set jobs'. \<exists>r. j = Some r \<and> r < length (heap w')"
proof (induction accessions arbitrary: jobs w)
  case Nil
  then show ?case by simp
next
  case (Cons acc accessions)
  from Cons.prems(1) obtain jobs1 w1 where
    a: "sra_accession resolve self datadir acc (jobs, w) = Inr (jobs1, w1)" and
    l: "sra_loop resolve self datadir accessions (jobs1, w1) = Inr (jobs', w')"
    by (auto split: sum.splits)
  have p: "\<forall>acc \<in> set (processed resolve self datadir accessions (jobs1, w1)).
      prefix ''SRR'' acc \<or> prefix ''SRX'' acc \<or> prefix ''SRP'' acc"
    using Cons.prems(2) by (simp add: a)
  have inv: "\<forall>j \<in> set jobs1. \<exists>r. j = Some r \<and> r < length (heap w1)"
  proof (cases "already_downloaded resolve datadir acc w")
    case True
    then show ?thesis using a Cons.prems(3) by (simp add: sra_accession_skip)
  next
    case False
    then have good: "prefix ''SRR'' acc \<or> prefix ''SRX'' acc \<or> prefix ''SRP'' acc"
      using Cons.prems(2) by (simp add: a)
    from a False obtain prefetch_job fasterq_dump_jobs h where
      b: "build_jobs self acc (path_join (self_tmpdir self) acc) (''sra_'' @ acc) (heap w) =
       Inr (prefetch_job, fasterq_dump_jobs, h)" and
      j: "jobs1 = jobs @ prefetch_job # map Some fasterq_dump_jobs @ [Some (length h)]" and
      hw: "heap w1 = append_parent fasterq_dump_jobs prefetch_job h @
       [\<lparr>job_payload = Function Sra_move_and_clean [path_join (self_tmpdir self) acc, datadir],
         job_parents = map Some fasterq_dump_jobs, job_can_start = None,
         job_label = Some (''sra_'' @ acc @ ''_clean'')\<rparr>]"
      by (rule sra_accession_Inr)
    note bj = build_jobs_Inr [OF b]
    have len1: "length (heap w1) = Suc (length h)" by (simp add: hw)
    from bj(6) good obtain p where pf: "prefetch_job = Some p" by auto
    with bj(5) have plt: "p < length h" by simp
    have old: "\<forall>j \<in> set jobs. \<exists>r. j = Some r \<and> r < length (heap w1)"
      using Cons.prems(3) bj(2) len1 by fastforce
    have fq: "\<forall>j \<in> set (map Some fasterq_dump_jobs). \<exists>r. j = Some r \<and> r < length (heap w1)"
      using bj(4) len1 by auto
    show ?thesis
      unfolding j using old fq plt by (auto simp: pf len1)
  qed
  show ?case by (rule Cons.IH [OF l p inv])
qed

lemma sra_loop_none_entry:
  "sra_loop resolve self datadir accessions (jobs, w) = Inr (jobs', w') \<Longrightarrow>
   acc \<in> set (processed resolve self datadir accessions (jobs, w)) \<Longrightarrow>
   \<not> (prefix ''SRR'' acc \<or> prefix ''SRX'' acc \<or> prefix ''SRP'' acc) \<Longrightarrow>
   \<exists>i clean_job. i + 1 < length jobs' \<and> jobs' ! i = None \<and> jobs' ! (i + 1) = Some clean_job \<and>
      clean_job < length (heap w') \<and>
      heap w' ! clean_job =
        \<lparr>job_payload = Function Sra_move_and_clean [path_join (self_tmpdir self) acc, datadir],
         job_parents = [], job_can_start = None,
         job_label = Some (''sra_'' @ acc @ ''_clean'')\<rparr>"
proof (induction accessions arbitrary: jobs w)
  case Nil
  then show ?case by simp
next
  case (Cons a accessions)
  from Cons.prems(1) obtain jobs1 w1 where
    a: "sra_accession resolve self datadir a (jobs, w) = Inr (jobs1, w1)" and
    l: "sra_loop resolve self datadir accessions (jobs1, w1) = Inr (jobs', w')"
    by (auto split: sum.splits)
  from Cons.prems(2) consider
    (here) "a = acc" "\<not> already_downloaded resolve datadir a w" |
    (later) "acc \<in> set (processed resolve self datadir accessions (jobs1, w1))"
    by (auto simp: a split: if_splits)
  then show ?case
  proof cases
    case later
    show ?thesis by (rule Cons.IH [OF l later Cons.prems(3)])
  next
    case here
    from a here obtain prefetch_job fasterq_dump_jobs h where
      b: "build_jobs self acc (path_join (self_tmpdir self) acc) (''sra_'' @ acc) (heap w) =
       Inr (prefetch_job, fasterq_dump_jobs, h)" and
      j: "jobs1 = jobs @ prefetch_job # map Some fasterq_dump_jobs @ [Some (length h)]" and
      hw: "heap w1 = append_parent fasterq_dump_jobs prefetch_job h @
       [\<lparr>job_payload = Function Sra_move_and_clean [path_join (self_tmpdir self) acc, datadir],
         job_parents = map Some fasterq_dump_jobs, job_can_start = None,
         job_label = Some (''sra_'' @ acc @ ''_clean'')\<rparr>]"
      by (auto elim: sra_accession_Inr)
    note bj = build_jobs_Inr [OF b]
    from bj(6) Cons.prems(3) have pf: "prefetch_job = None" by auto
    with bj(5) have fq: "fasterq_dump_jobs = []" by simp
    have j1: "jobs1 = jobs @ [None, Some (length h)]" using j pf fq by simp
    have h1: "heap w1 = h @
       [\<lparr>job_payload = Function Sra_move_and_clean [path_join (self_tmpdir self) acc, datadir],
         job_parents = [], job_can_start = None,
         job_label = Some (''sra_'' @ acc @ ''_clean'')\<rparr>]"
      using hw fq by simp
    from sra_loop_extends [OF l] have pj: "prefix jobs1 jobs'" and ph: "prefix (heap w1) (heap w')"
      by simp_all
    have lj: "length jobs1 \<le> length jobs'" using pj by (rule prefix_length_le)
    have lh: "length (heap w1) \<le> length (heap w')" using ph by (rule prefix_length_le)
    have n0: "jobs' ! length jobs = None"
      using prefix_nth [OF pj, of "length jobs"] by (simp add: j1 nth_append)
    have n1: "jobs' ! (length jobs + 1) = Some (length h)"
      using prefix_nth [OF pj, of "length jobs + 1"] by (simp add: j1 nth_append)
    have c: "heap w' ! length h =
        \<lparr>job_payload = Function Sra_move_and_clean [path_join (self_tmpdir self) acc, datadir],
         job_parents = [], job_can_start = None,
         job_label = Some (''sra_'' @ acc @ ''_clean'')\<rparr>"
      using prefix_nth [OF ph, of "length h"] by (simp add: h1 nth_append)
    have "length jobs + 1 < length jobs'" using lj by (simp add: j1)
    moreover have "length h < length (heap w')" using lh by (simp add: h1)
    ultimately show ?thesis using n0 n1 c by blast
  qed
qed

text \<open>
  Claim C8. Take a run of \<^verbatim>\<open>SRA.jobs_from_accessions\<close> that returns. If every processed
  accession starts with \<^verbatim>\<open>SRR\<close>, \<^verbatim>\<open>SRX\<close> or \<^verbatim>\<open>SRP\<close>, every element of the returned
  list is a job of the heap. For every processed accession that starts with none of them,
  the returned list holds a \<^verbatim>\<open>None\<close> where the prefetch job would be, followed by the
  clean job of the accession, whose list of parents is empty.
\<close>

theorem C8_sra_none_entries:
  assumes "sra_jobs_from_accessions resolve self accessions datadir w = Inr (jobs, w')"
  shows "((\<forall>acc \<in> set (processed resolve self datadir accessions ([], w)).
             prefix ''SRR'' acc \<or> prefix ''SRX'' acc \<or> prefix ''SRP'' acc) \<longrightarrow>
          (\<forall>j \<in> set jobs. \<exists>r. j = Some r \<and> r < length (heap w'))) \<and>
         (\<forall>acc \<in> set (processed resolve self datadir accessions ([], w)).
            \<not> (prefix ''SRR'' acc \<or> prefix ''SRX'' acc \<or> prefix ''SRP'' acc) \<longrightarrow>
            (\<exists>i clean_job. i + 1 < length jobs \<and> jobs ! i = None \<and>
               jobs ! (i + 1) = Some clean_job \<and> clean_job < length (heap w') \<and>
               heap w' ! clean_job =
                 \<lparr>job_payload = Function Sra_move_and_clean
                                   [path_join (self_tmpdir self) acc, datadir],
                  job_parents = [], job_can_start = None,
                  job_label = Some (''sra_'' @ acc @ ''_clean'')\<rparr>))"
proof -
  from assms have l: "sra_loop resolve self datadir accessions ([], w) = Inr (jobs, w')"
    by (simp add: sra_jobs_from_accessions_def)
  show ?thesis
    using sra_loop_all_jobs [OF l] sra_loop_none_entry [OF l] by simp
qed

lemma example_sra_ok:
  "\<not> isl example_sra_run" "\<not> isl example_sra_reach" "\<not> isl example_sra_built"
  "\<not> isl example_sra_run_known"
  by code_simp+

lemma example_sra_values:
  "\<not> already_downloaded components ''data'' ''SRX3'' (snd (projr example_sra_reach))"
  "length (fst (projr example_sra_reach)) = 4"
  "fst (projr example_sra_built) = Some 4"
  "fst (snd (projr example_sra_built)) = [5]"
  "job_parents (snd (snd (projr example_sra_built)) ! 5) = []"
  "processed components example_sra ''data'' [''SRR1'', ''SRR2'', ''SRX3'', ''ERR4'']
     ([], example_sra_world) = [''SRR1'', ''SRX3'', ''ERR4'']"
  "processed components example_sra ''data'' [''SRR1'', ''SRR2'', ''SRX3'']
     ([], example_sra_world) = [''SRR1'', ''SRX3'']"
  by code_simp+

theorem C7_witness:
  "\<not> isl example_sra_run \<and> \<not> isl example_sra_reach \<and> \<not> isl example_sra_built \<and>
   \<not> already_downloaded components ''data'' ''SRX3'' (snd (projr example_sra_reach)) \<and>
   (\<exists>clean_job.
      take 3 (drop 4 (fst (projr example_sra_run))) = [Some 4, Some 5, Some clean_job] \<and>
      job_parents (heap (snd (projr example_sra_run)) ! 5) = [Some 4] \<and>
      job_parents (heap (snd (projr example_sra_run)) ! clean_job) = [Some 5])"
proof -
  have run: "sra_jobs_from_accessions components example_sra [''SRR1'', ''SRR2'', ''SRX3'', ''ERR4'']
       ''data'' example_sra_world = Inr (fst (projr example_sra_run), snd (projr example_sra_run))"
    using example_sra_ok(1) by (simp add: example_sra_run_def)
  have split: "[''SRR1'', ''SRR2'', ''SRX3'', ''ERR4''] = [''SRR1'', ''SRR2''] @ ''SRX3'' # [''ERR4'']"
    by simp
  have reach: "sra_loop components example_sra ''data'' [''SRR1'', ''SRR2''] ([], example_sra_world) =
       Inr (fst (projr example_sra_reach), snd (projr example_sra_reach))"
    using example_sra_ok(2) by (simp add: example_sra_reach_def)
  have built: "build_jobs example_sra ''SRX3'' (path_join (self_tmpdir example_sra) ''SRX3'')
       (''sra_'' @ ''SRX3'') (heap (snd (projr example_sra_reach))) =
       Inr (fst (projr example_sra_built), fst (snd (projr example_sra_built)),
            snd (snd (projr example_sra_built)))"
    using example_sra_ok(3) by (simp add: example_sra_built_def)
  from C7_sra_parent_links_before_return [OF run split reach example_sra_values(1) built,
      unfolded example_sra_values]
  obtain clean_job where
    a: "take (length [5::nat] + 2) (drop 4 (fst (projr example_sra_run))) =
          Some 4 # map Some [5] @ [Some clean_job]" and
    b: "\<forall>job \<in> set [5::nat]. job < length (heap (snd (projr example_sra_run))) \<and>
          heap (snd (projr example_sra_run)) ! job =
            (snd (snd (projr example_sra_built)) ! job)
              \<lparr>job_parents := job_parents (snd (snd (projr example_sra_built)) ! job) @ [Some 4]\<rparr>" and
    c: "heap (snd (projr example_sra_run)) ! clean_job =
             \<lparr>job_payload = Function Sra_move_and_clean
                 [path_join (self_tmpdir example_sra) ''SRX3'', ''data''],
              job_parents = map Some [5], job_can_start = None,
              job_label = Some (''sra_'' @ ''SRX3'' @ ''_clean'')\<rparr>"
    by blast
  have a': "take 3 (drop 4 (fst (projr example_sra_run))) = [Some 4, Some 5, Some clean_job]"
    using a by (simp add: numeral_3_eq_3)
  have b': "job_parents (heap (snd (projr example_sra_run)) ! 5) = [Some 4]"
    using b by (simp add: example_sra_values)
  have c': "job_parents (heap (snd (projr example_sra_run)) ! clean_job) = [Some 5]"
    using c by simp
  from a' b' c' show ?thesis using example_sra_ok example_sra_values(1) by blast
qed

theorem C8_witness:
  "\<not> isl example_sra_run \<and> \<not> isl example_sra_run_known \<and>
   prefix ''SRR'' ''SRR1'' \<and> prefix ''SRX'' ''SRX3'' \<and>
   None \<notin> set (fst (projr example_sra_run_known)) \<and>
   \<not> prefix ''SRR'' ''ERR4'' \<and> \<not> prefix ''SRX'' ''ERR4'' \<and> \<not> prefix ''SRP'' ''ERR4'' \<and>
   (\<exists>i clean_job. fst (projr example_sra_run) ! i = None \<and>
      fst (projr example_sra_run) ! (i + 1) = Some clean_job \<and>
      job_parents (heap (snd (projr example_sra_run)) ! clean_job) = [] \<and>
      job_label (heap (snd (projr example_sra_run)) ! clean_job) = Some ''sra_ERR4_clean'')"
proof -
  have run: "sra_jobs_from_accessions components example_sra [''SRR1'', ''SRR2'', ''SRX3'', ''ERR4'']
       ''data'' example_sra_world = Inr (fst (projr example_sra_run), snd (projr example_sra_run))"
    using example_sra_ok(1) by (simp add: example_sra_run_def)
  have known: "sra_jobs_from_accessions components example_sra [''SRR1'', ''SRR2'', ''SRX3'']
       ''data'' example_sra_world =
       Inr (fst (projr example_sra_run_known), snd (projr example_sra_run_known))"
    using example_sra_ok(4) by (simp add: example_sra_run_known_def)
  have good: "\<forall>acc \<in> set [''SRR1'', ''SRX3''].
      prefix ''SRR'' acc \<or> prefix ''SRX'' acc \<or> prefix ''SRP'' acc"
    by simp
  have bad: "\<not> (prefix ''SRR'' ''ERR4'' \<or> prefix ''SRX'' ''ERR4'' \<or> prefix ''SRP'' ''ERR4'')"
    by simp
  have 1: "None \<notin> set (fst (projr example_sra_run_known))"
    using C8_sra_none_entries [OF known] good unfolding example_sra_values by fastforce
  have 2: "\<exists>i clean_job. fst (projr example_sra_run) ! i = None \<and>
      fst (projr example_sra_run) ! (i + 1) = Some clean_job \<and>
      job_parents (heap (snd (projr example_sra_run)) ! clean_job) = [] \<and>
      job_label (heap (snd (projr example_sra_run)) ! clean_job) = Some ''sra_ERR4_clean''"
  proof -
    from C8_sra_none_entries [OF run, THEN conjunct2, unfolded example_sra_values,
        rule_format, of "''ERR4''"] bad
    obtain i clean_job where
      "fst (projr example_sra_run) ! i = None"
      "fst (projr example_sra_run) ! (i + 1) = Some clean_job"
      "heap (snd (projr example_sra_run)) ! clean_job =
                 \<lparr>job_payload = Function Sra_move_and_clean
                                   [path_join (self_tmpdir example_sra) ''ERR4'', ''data''],
                  job_parents = [], job_can_start = None,
                  job_label = Some (''sra_'' @ ''ERR4'' @ ''_clean'')\<rparr>"
      by auto
    then show ?thesis by (intro exI [of _ i] exI [of _ clean_job]) simp
  qed
  from 1 2 example_sra_ok show ?thesis by simp
qed

end
